theory Spec2Isabelle
  imports Main "HOL-Library.Word"
begin

unbundle bit_operations_syntax

section \<open>The identifier tracker of \<^verbatim>\<open>id-tracker.cpp\<close>\<close>

text \<open>
  The tracker keeps a set of pending identifiers as an ordered map from block index to a
  block of \<^verbatim>\<open>BLOCK_SIZE\<close> presence bits. This theory embeds the data types and every function
  of the file and proves its properties.
\<close>

subsection \<open>Constants and the identifier type\<close>

definition BLOCK_BITS :: nat where
  "BLOCK_BITS = 16"

definition BLOCK_SIZE :: nat where
  "BLOCK_SIZE = push_bit BLOCK_BITS 1"

definition BLOCK_MASK :: nat where
  "BLOCK_MASK = BLOCK_SIZE - 1"

text \<open>
  The type \<^verbatim>\<open>osmid_t\<close> is declared in a header that is not among the sources. The functions
  below only shift, mask and compare identifiers, and the one left shift is applied to a
  block index that a right shift produced, so nothing overflows on a representable value:
  an identifier is an \<^typ>\<open>int\<close>, and the two constants \<^verbatim>\<open>std::numeric_limits<osmid_t>::min()\<close>
  and \<^verbatim>\<open>max()\<close> are a parameter of the functions that use them. On \<^typ>\<open>int\<close>, \<^const>\<open>drop_bit\<close> is
  the arithmetic right shift (the logical one on a non-negative value), \<^const>\<open>push_bit\<close> the
  left shift, and \<open>AND\<close>, \<open>OR\<close> work on the two's complement representation. The
  parameter \<^verbatim>\<open>id\<close> of the source is written \<open>oid\<close>.
\<close>

type_synonym osmid_t = int

record numeric_limits =
  lim_min :: osmid_t
  lim_max :: osmid_t

text \<open>
  Modelled from the spec: the header that declares \<^verbatim>\<open>osmid_t\<close> is missing; the specification
  describes an identifier as an unsigned integer of 64 bits.
\<close>

definition uint64_limits :: numeric_limits where
  "uint64_limits = \<lparr>lim_min = 0, lim_max = 2 ^ 64 - 1\<rparr>"

text \<open>The limits of a signed 64-bit integer type, the other choice a header could make.\<close>

definition int64_limits :: numeric_limits where
  "int64_limits = \<lparr>lim_min = - (2 ^ 63), lim_max = 2 ^ 63 - 1\<rparr>"

subsection \<open>Blocks\<close>

text \<open>
  A block is a vector of \<^verbatim>\<open>uint32_t\<close> words, \<^verbatim>\<open>BLOCK_SIZE >> 5\<close> of them, all zero after
  construction. The offsets of type \<^verbatim>\<open>size_t\<close> stay below \<^verbatim>\<open>BLOCK_SIZE + 32\<close> and are natural
  numbers here. The file indexes the vector with an offset that is an identifier masked
  with \<^verbatim>\<open>BLOCK_MASK\<close> or a result of \<^verbatim>\<open>next_set\<close> other than \<^verbatim>\<open>BLOCK_SIZE\<close>, and with the
  word index that the first loop of \<^verbatim>\<open>next_set\<close> has compared with the number of words; all
  of them are inside the vector.
\<close>

type_synonym uint32_t = "32 word"

record block =
  bits :: "uint32_t list"

definition new_block :: block where
  "new_block = \<lparr>bits = replicate (drop_bit 5 BLOCK_SIZE) 0\<rparr>"

text \<open>\<^verbatim>\<open>block::operator[]\<close>\<close>

definition block_get :: "block \<Rightarrow> nat \<Rightarrow> bool" where
  "block_get b i = ((bits b ! drop_bit 5 i) AND push_bit (i AND 0x1f) 1 > 0)"

text \<open>\<^verbatim>\<open>block::set\<close>\<close>

definition block_set :: "block \<Rightarrow> nat \<Rightarrow> bool \<Rightarrow> block" where
  "block_set b i val =
     (let bt = bits b ! drop_bit 5 i;
          mask = push_bit (i AND 0x1f) 1
      in b\<lparr>bits := (bits b)[drop_bit 5 i := (if val then bt OR mask else bt AND NOT mask)]\<rparr>)"

text \<open>
  \<^verbatim>\<open>block::next_set\<close>. Its first loop skips the words that are zero; it stops at the end of
  the vector at the latest.
\<close>

function skip_zero_words :: "uint32_t list \<Rightarrow> nat \<Rightarrow> nat" where
  "skip_zero_words bs bit_i =
     (if bit_i < drop_bit 5 BLOCK_SIZE \<and> bs ! bit_i = 0
      then skip_zero_words bs (bit_i + 1) else bit_i)"
  by pat_completeness auto
termination
  by (relation "measure (\<lambda>(bs, bit_i). drop_bit 5 BLOCK_SIZE - bit_i)") auto

declare skip_zero_words.simps [simp del]

text \<open>
  Its second loop shifts the word found to the right until the lowest bit is set. The loop
  has no bound of its own: on a zero word it would not end, which is the value \<open>None\<close>.
\<close>

partial_function (option) scan_word :: "uint32_t \<Rightarrow> nat \<Rightarrow> nat option" where
  "scan_word bt idx =
     (if bt AND 1 = 0 then scan_word (drop_bit 1 bt) (idx + 1) else Some idx)"

declare scan_word.simps [code]

definition next_set :: "block \<Rightarrow> nat \<Rightarrow> nat option" where
  "next_set b start =
     (let bit_i = skip_zero_words (bits b) (drop_bit 5 start)
      in if bit_i \<ge> drop_bit 5 BLOCK_SIZE then Some BLOCK_SIZE
         else scan_word (bits b ! bit_i) (push_bit 5 bit_i))"

subsection \<open>The tracker state\<close>

text \<open>
  \<^verbatim>\<open>std::map<osmid_t, block>\<close> is an ordered map: it is the list of its entries in ascending
  key order, so that \<^verbatim>\<open>begin()\<close> is the head of the list and \<^verbatim>\<open>find\<close> is \<^const>\<open>map_of\<close>.
\<close>

type_synonym map_t = "(osmid_t \<times> block) list"

record pimpl =
  pending :: map_t
  old_id :: osmid_t
  next_start :: "nat option"

text \<open>
  \<^verbatim>\<open>pending[k].f(...)\<close>: \<^verbatim>\<open>operator[]\<close> finds the entry of key \<open>k\<close>, inserting a freshly
  constructed block at its place in the order when there is none, and the member function
  \<open>f\<close> then changes the block found.
\<close>

fun map_subscript :: "(block \<Rightarrow> block) \<Rightarrow> osmid_t \<Rightarrow> map_t \<Rightarrow> map_t" where
  "map_subscript f k [] = [(k, f new_block)]"
| "map_subscript f k ((k', b) # m) =
     (if k < k' then (k, f new_block) # (k', b) # m
      else if k = k' then (k', f b) # m
      else (k', b) # map_subscript f k m)"

text \<open>\<^verbatim>\<open>id_tracker::pimpl::get\<close>\<close>

definition pimpl_get :: "pimpl \<Rightarrow> osmid_t \<Rightarrow> bool" where
  "pimpl_get p oid =
     (let blk = drop_bit BLOCK_BITS oid;
          offset = oid AND int BLOCK_MASK
      in case map_of (pending p) blk of
           None \<Rightarrow> False
         | Some b \<Rightarrow> block_get b (nat offset))"

text \<open>\<^verbatim>\<open>id_tracker::pimpl::set\<close>\<close>

definition pimpl_set :: "pimpl \<Rightarrow> osmid_t \<Rightarrow> bool \<Rightarrow> pimpl" where
  "pimpl_set p oid val =
     (let blk = drop_bit BLOCK_BITS oid;
          offset = oid AND int BLOCK_MASK;
          p' = p\<lparr>pending := map_subscript (\<lambda>b. block_set b (nat offset) val) blk (pending p)\<rparr>
      in if next_start p' \<noteq> None then p'\<lparr>next_start := None\<rparr> else p')"

text \<open>
  \<^verbatim>\<open>id_tracker::pimpl::pop_min\<close>. What can go wrong is a value of its own: the loop reads
  \<^verbatim>\<open>pending.begin()\<close> without asking whether the map is empty, the second loop of
  \<^verbatim>\<open>next_set\<close> may not return, and \<^verbatim>\<open>pop_mark\<close> asserts.
\<close>

datatype fault = EndDereferenced | NoReturn | AssertionFailed

datatype step = Break osmid_t pimpl | Continue pimpl | Fault fault

text \<open>One pass through the body of the loop of \<^verbatim>\<open>pop_min\<close>.\<close>

definition pop_min_body :: "pimpl \<Rightarrow> step" where
  "pop_min_body p =
     (case pending p of
        [] \<Rightarrow> Fault EndDereferenced
      | (first, b) # rest \<Rightarrow>
          (let start = (case next_start p of None \<Rightarrow> 0 | Some s \<Rightarrow> s)
           in case next_set b start of
                None \<Rightarrow> Fault NoReturn
              | Some b_itr \<Rightarrow>
                  if b_itr \<noteq> BLOCK_SIZE
                  then Break (push_bit BLOCK_BITS first OR int b_itr)
                         (p\<lparr>pending := (first, block_set b b_itr False) # rest,
                            next_start := Some b_itr\<rparr>)
                  else Continue (p\<lparr>pending := rest, next_start := None\<rparr>)))"

function pop_min_loop :: "osmid_t \<Rightarrow> pimpl \<Rightarrow> fault + osmid_t \<times> pimpl" where
  "pop_min_loop oid p =
     (if next_start p \<noteq> None \<or> pending p \<noteq> []
      then (case pop_min_body p of
              Break oid' p' \<Rightarrow> Inr (oid', p')
            | Continue p' \<Rightarrow> pop_min_loop oid p'
            | Fault f \<Rightarrow> Inl f)
      else Inr (oid, p))"
  by pat_completeness auto
termination
  by (relation "measure (\<lambda>(oid, p). length (pending p))")
     (auto simp: pop_min_body_def Let_def split: list.splits option.splits if_splits)

declare pop_min_loop.simps [simp del]

definition pop_min :: "numeric_limits \<Rightarrow> pimpl \<Rightarrow> fault + osmid_t \<times> pimpl" where
  "pop_min L p = pop_min_loop (lim_max L) p"

text \<open>The same loop with a bound on the number of times its condition is evaluated.\<close>

fun pop_min_fuel :: "nat \<Rightarrow> osmid_t \<Rightarrow> pimpl \<Rightarrow> (fault + osmid_t \<times> pimpl) option" where
  "pop_min_fuel 0 oid p = None"
| "pop_min_fuel (Suc n) oid p =
     (if next_start p \<noteq> None \<or> pending p \<noteq> []
      then (case pop_min_body p of
              Break oid' p' \<Rightarrow> Some (Inr (oid', p'))
            | Continue p' \<Rightarrow> pop_min_fuel n oid p'
            | Fault f \<Rightarrow> Some (Inl f))
      else Some (Inr (oid, p)))"

subsection \<open>The public interface\<close>

text \<open>\<^verbatim>\<open>id_tracker::id_tracker\<close>, with \<^verbatim>\<open>pimpl::pimpl\<close>\<close>

definition id_tracker :: "numeric_limits \<Rightarrow> pimpl" where
  "id_tracker L = \<lparr>pending = [], old_id = lim_min L, next_start = None\<rparr>"

definition mark :: "numeric_limits \<Rightarrow> pimpl \<Rightarrow> osmid_t \<Rightarrow> pimpl" where
  "mark L t oid = (pimpl_set t oid True)\<lparr>old_id := lim_min L\<rparr>"

text \<open>
  \<^verbatim>\<open>is_marked\<close> is not declared \<^verbatim>\<open>const\<close>, so it returns the state next to its answer; it
  calls the \<^verbatim>\<open>const\<close> member \<^verbatim>\<open>get\<close> only.
\<close>

definition is_marked :: "pimpl \<Rightarrow> osmid_t \<Rightarrow> bool \<times> pimpl" where
  "is_marked t oid = (pimpl_get t oid, t)"

definition pop_mark :: "numeric_limits \<Rightarrow> pimpl \<Rightarrow> fault + osmid_t \<times> pimpl" where
  "pop_mark L t =
     (case pop_min L t of
        Inl f \<Rightarrow> Inl f
      | Inr (oid, p) \<Rightarrow>
          if oid > old_id p \<or> oid = lim_max L then Inr (oid, p\<lparr>old_id := oid\<rparr>)
          else Inl AssertionFailed)"

text \<open>\<^verbatim>\<open>commit\<close> and \<^verbatim>\<open>force_release\<close> have empty bodies.\<close>

definition commit :: "pimpl \<Rightarrow> pimpl" where
  "commit t = t"

definition force_release :: "pimpl \<Rightarrow> pimpl" where
  "force_release t = t"

subsection \<open>Sequences of calls\<close>

datatype call = Mark osmid_t | IsMarked osmid_t | PopMark

text \<open>
  Running a sequence of calls from a state gives the identifiers returned by the
  \<^verbatim>\<open>pop_mark\<close> calls, in order, and the final state; a fault ends the run.
\<close>

fun run :: "numeric_limits \<Rightarrow> call list \<Rightarrow> pimpl \<Rightarrow> fault + osmid_t list \<times> pimpl" where
  "run L [] t = Inr ([], t)"
| "run L (Mark oid # cs) t = run L cs (mark L t oid)"
| "run L (IsMarked oid # cs) t = run L cs (snd (is_marked t oid))"
| "run L (PopMark # cs) t =
     (case pop_mark L t of
        Inl f \<Rightarrow> Inl f
      | Inr (oid, t') \<Rightarrow>
          (case run L cs t' of
             Inl f \<Rightarrow> Inl f
           | Inr (ids, t'') \<Rightarrow> Inr (oid # ids, t'')))"

text \<open>
  The states a client can reach: from the constructor, by marking identifiers of the
  representable range, asking for one, and popping without a fault.
\<close>

inductive reachable :: "numeric_limits \<Rightarrow> pimpl \<Rightarrow> bool" for L where
  reach_new: "reachable L (id_tracker L)"
| reach_mark: "reachable L t \<Longrightarrow> lim_min L \<le> oid \<Longrightarrow> oid \<le> lim_max L \<Longrightarrow> reachable L (mark L t oid)"
| reach_is_marked: "reachable L t \<Longrightarrow> reachable L (snd (is_marked t oid))"
| reach_pop_mark: "reachable L t \<Longrightarrow> pop_mark L t = Inr (oid, t') \<Longrightarrow> reachable L t'"

section \<open>Invariants and abstraction\<close>

text \<open>
  What the constructor of a block establishes and \<^verbatim>\<open>set\<close> keeps: the vector has
  \<^verbatim>\<open>BLOCK_SIZE >> 5\<close> words.
\<close>

definition wf_block :: "block \<Rightarrow> bool" where
  "wf_block b \<longleftrightarrow> length (bits b) = drop_bit 5 BLOCK_SIZE"

text \<open>
  No bit of the block is set.
\<close>

definition block_empty :: "block \<Rightarrow> bool" where
  "block_empty b \<longleftrightarrow> (\<forall>off<BLOCK_SIZE. \<not> block_get b off)"

text \<open>
  What \<^verbatim>\<open>std::map\<close> guarantees: the keys ascend strictly; and every block is well formed.
\<close>

definition wf_map :: "map_t \<Rightarrow> bool" where
  "wf_map m \<longleftrightarrow> sorted_wrt (<) (map fst m) \<and> (\<forall>b \<in> snd ` set m. wf_block b)"

text \<open>
  The cursor refers to the first block of the map, and no bit below it is set there.
\<close>

definition cursor_ok :: "pimpl \<Rightarrow> bool" where
  "cursor_ok p \<longleftrightarrow>
     (case next_start p of
        None \<Rightarrow> True
      | Some s \<Rightarrow>
          (case pending p of
             [] \<Rightarrow> False
           | (k, b) # rest \<Rightarrow> s < BLOCK_SIZE \<and> (\<forall>off. off < s \<longrightarrow> \<not> block_get b off)))"

text \<open>
  The invariant of the tracker state.
\<close>

definition tracker_inv :: "pimpl \<Rightarrow> bool" where
  "tracker_inv p \<longleftrightarrow> wf_map (pending p) \<and> cursor_ok p"

text \<open>
  The lowest offset whose bit is set.
\<close>

definition first_set :: "block \<Rightarrow> nat" where
  "first_set b = (LEAST off. block_get b off)"

text \<open>
  Whether a map holds an identifier: \<^const>\<open>pimpl_get\<close> on the map alone, with the shift and
  the mask written as division and remainder.
\<close>

definition map_get :: "map_t \<Rightarrow> osmid_t \<Rightarrow> bool" where
  "map_get m oid =
     (case map_of m (oid div 65536) of None \<Rightarrow> False
      | Some b \<Rightarrow> block_get b (nat (oid mod 65536)))"

text \<open>
  The block that \<^verbatim>\<open>pending[k]\<close> refers to: the entry of \<open>k\<close>, or a new block when the map has
  none.
\<close>

definition block_of :: "map_t \<Rightarrow> osmid_t \<Rightarrow> block" where
  "block_of m k = (case map_of m k of None \<Rightarrow> new_block | Some b \<Rightarrow> b)"

text \<open>
  The states in which one call of \<^verbatim>\<open>pop_min\<close>, started in \<open>t\<close>, evaluates the condition of
  its loop.
\<close>

inductive pop_min_visits :: "pimpl \<Rightarrow> pimpl \<Rightarrow> bool" for t where
  visit_first: "pop_min_visits t t"
| visit_next: "pop_min_visits t p \<Longrightarrow> next_start p \<noteq> None \<or> pending p \<noteq> [] \<Longrightarrow>
    pop_min_body p = Continue p' \<Longrightarrow> pop_min_visits t p'"


section \<open>Lemmas\<close>

subsection \<open>Blocks: bits and words\<close>

lemma BLOCK_SIZE_eq: "BLOCK_SIZE = 65536"
  by (simp add: BLOCK_SIZE_def BLOCK_BITS_def)

lemma BLOCK_MASK_eq: "BLOCK_MASK = 65535"
  by (simp add: BLOCK_MASK_def BLOCK_SIZE_eq)

lemma shift5_eq_div: "drop_bit 5 (i::nat) = i div 32"
  by (simp add: drop_bit_eq_div)

lemma mask5_eq_mod: "(i::nat) AND 0x1f = i mod 32"
proof -
  have "(i::nat) AND mask 5 = i mod 2 ^ 5"
    by (simp only: take_bit_eq_mask [symmetric] take_bit_eq_mod)
  then show ?thesis by (simp add: mask_eq_exp_minus_1)
qed

lemma push5_eq_mult: "push_bit 5 (k::nat) = 32 * k"
  by (simp add: push_bit_eq_mult)

lemma test_bit_word: "((w::uint32_t) AND push_bit n 1 > 0) \<longleftrightarrow> bit w n"
  by (simp add: word_gt_0 push_bit_of_1 and_exp_eq_0_iff_not_bit)

lemma block_get_iff: "block_get b i \<longleftrightarrow> bit (bits b ! (i div 32)) (i mod 32)"
  by (simp only: block_get_def shift5_eq_div mask5_eq_mod test_bit_word)

lemma wf_new_block: "wf_block new_block"
  by (simp add: wf_block_def new_block_def)

lemma block_get_new_block: "i < BLOCK_SIZE \<Longrightarrow> \<not> block_get new_block i"
  by (simp add: block_get_iff new_block_def BLOCK_SIZE_eq)

lemma wf_block_set: "wf_block b \<Longrightarrow> wf_block (block_set b i v)"
  by (simp add: wf_block_def block_set_def Let_def)

lemma offset_eq_iff: "(j::nat) = i \<longleftrightarrow> j div 32 = i div 32 \<and> j mod 32 = i mod 32"
  by (metis div_mult_mod_eq)

lemma block_get_set:
  assumes "wf_block b" "i < BLOCK_SIZE"
  shows "block_get (block_set b i v) j = (if j = i then v else block_get b j)"
proof -
  have len: "i div 32 < length (bits b)"
    using assms by (simp add: wf_block_def BLOCK_SIZE_eq)
  have n: "i mod 32 < LENGTH(32)" by simp
  show ?thesis
  proof (cases "j div 32 = i div 32")
    case True
    then show ?thesis using len n
      by (auto simp: block_get_iff block_set_def Let_def shift5_eq_div mask5_eq_mod
          bit_simps offset_eq_iff [of j i])
  next
    case False
    then show ?thesis using len
      by (auto simp: block_get_iff block_set_def Let_def shift5_eq_div mask5_eq_mod)
  qed
qed

subsection \<open>Blocks: the scan of \<^verbatim>\<open>next_set\<close>\<close>

lemma skip_zero_words_stop:
  "i \<le> k \<Longrightarrow> k < drop_bit 5 BLOCK_SIZE \<Longrightarrow> bs ! k \<noteq> 0 \<Longrightarrow>
   (\<forall>j. i \<le> j \<and> j < k \<longrightarrow> bs ! j = 0) \<Longrightarrow> skip_zero_words bs i = k"
proof (induction "k - i" arbitrary: i)
  case 0
  then have "i = k" by simp
  with 0 show ?case by (simp add: skip_zero_words.simps)
next
  case (Suc d)
  then have "i < k" "bs ! i = 0" by auto
  moreover have "skip_zero_words bs (i + 1) = k"
    using Suc by (intro Suc.hyps(1)) auto
  ultimately show ?case
    using Suc.prems(2) by (subst skip_zero_words.simps) simp
qed

lemma skip_zero_words_end:
  "(\<forall>j. i \<le> j \<and> j < drop_bit 5 BLOCK_SIZE \<longrightarrow> bs ! j = 0) \<Longrightarrow>
   drop_bit 5 BLOCK_SIZE \<le> skip_zero_words bs i"
proof (induction "drop_bit 5 BLOCK_SIZE - i" arbitrary: i)
  case 0
  then show ?case by (subst skip_zero_words.simps) simp
next
  case (Suc d)
  then have "i < drop_bit 5 BLOCK_SIZE" "bs ! i = 0" by auto
  moreover have "drop_bit 5 BLOCK_SIZE \<le> skip_zero_words bs (i + 1)"
    using Suc by (intro Suc.hyps(1)) auto
  ultimately show ?case
    by (subst skip_zero_words.simps) simp
qed

lemma and_one_word: "(w::uint32_t) AND 1 = 0 \<longleftrightarrow> \<not> bit w 0"
  by (simp add: and_one_eq bit_0 even_iff_mod_2_eq_zero)

lemma scan_word_least:
  "bit w n \<Longrightarrow> (\<forall>m<n. \<not> bit w m) \<Longrightarrow> scan_word w idx = Some (idx + n)"
proof (induction n arbitrary: w idx)
  case 0
  then show ?case by (subst scan_word.simps) (simp add: and_one_word)
next
  case (Suc n)
  from Suc.prems have w0: "\<not> bit w 0" by auto
  have "bit (drop_bit 1 w) n"
    using Suc.prems(1) by (simp add: bit_drop_bit_eq)
  moreover have "\<forall>m<n. \<not> bit (drop_bit 1 w) m"
    using Suc.prems(2) by (simp add: bit_drop_bit_eq)
  ultimately have "scan_word (drop_bit 1 w) (idx + 1) = Some (idx + 1 + n)"
    by (rule Suc.IH)
  with w0 show ?case by (subst scan_word.simps) (simp add: and_one_word)
qed

lemma word_zero_iff: "(w::uint32_t) = 0 \<longleftrightarrow> (\<forall>m<32. \<not> bit w m)"
proof
  assume "\<forall>m<32. \<not> bit w m"
  then have "\<not> bit w m" for m
    using bit_imp_le_length [of w m] by (cases "m < 32") auto
  then show "w = 0" by (simp add: bit_eq_iff)
qed simp

lemma next_set_found:
  assumes wf: "wf_block b" and r: "r < BLOCK_SIZE" and marked: "block_get b r"
    and lo: "32 * (start div 32) \<le> r"
    and least: "\<forall>off. 32 * (start div 32) \<le> off \<and> off < r \<longrightarrow> \<not> block_get b off"
  shows "next_set b start = Some r"
proof -
  let ?k = "r div 32"
  have k: "?k < drop_bit 5 BLOCK_SIZE"
    using r by (simp add: BLOCK_SIZE_eq)
  have ge: "start div 32 \<le> ?k" using lo by linarith
  have nz: "bits b ! ?k \<noteq> 0"
    using marked by (auto simp: block_get_iff)
  have zero: "bits b ! j = 0" if "start div 32 \<le> j" "j < ?k" for j
  proof -
    have "\<not> bit (bits b ! j) m" if "m < 32" for m
    proof -
      have "32 * (start div 32) \<le> 32 * j + m" "32 * j + m < r"
        using \<open>start div 32 \<le> j\<close> \<open>j < ?k\<close> \<open>m < 32\<close> by linarith+
      then have "\<not> block_get b (32 * j + m)" using least by blast
      then show ?thesis using \<open>m < 32\<close> by (simp add: block_get_iff)
    qed
    then show ?thesis by (simp add: word_zero_iff)
  qed
  have skip: "skip_zero_words (bits b) (start div 32) = ?k"
    using ge k nz zero by (intro skip_zero_words_stop) auto
  have low: "\<not> bit (bits b ! ?k) m" if "m < r mod 32" for m
  proof -
    have "32 * (start div 32) \<le> 32 * ?k + m" "32 * ?k + m < r"
      using ge that mult_div_mod_eq [of 32 r] by linarith+
    then have "\<not> block_get b (32 * ?k + m)" using least by blast
    moreover have "m < 32" using that by (meson less_trans mod_less_divisor zero_less_numeral)
    ultimately show ?thesis by (simp add: block_get_iff)
  qed
  have "scan_word (bits b ! ?k) (32 * ?k) = Some (32 * ?k + r mod 32)"
    using marked low by (intro scan_word_least) (auto simp: block_get_iff)
  then show ?thesis
    using k by (simp add: next_set_def Let_def shift5_eq_div skip push5_eq_mult)
qed

lemma next_set_none:
  assumes "\<forall>off. 32 * (start div 32) \<le> off \<and> off < BLOCK_SIZE \<longrightarrow> \<not> block_get b off"
  shows "next_set b start = Some BLOCK_SIZE"
proof -
  have "bits b ! j = 0" if "start div 32 \<le> j" "j < drop_bit 5 BLOCK_SIZE" for j
  proof -
    have "\<not> bit (bits b ! j) m" if "m < 32" for m
    proof -
      have "32 * (start div 32) \<le> 32 * j + m" "32 * j + m < BLOCK_SIZE"
        using \<open>start div 32 \<le> j\<close> \<open>j < drop_bit 5 BLOCK_SIZE\<close> \<open>m < 32\<close>
        by (simp_all add: BLOCK_SIZE_eq)
      then have "\<not> block_get b (32 * j + m)" using assms by blast
      then show ?thesis using \<open>m < 32\<close> by (simp add: block_get_iff)
    qed
    then show ?thesis by (simp add: word_zero_iff)
  qed
  then have "drop_bit 5 BLOCK_SIZE \<le> skip_zero_words (bits b) (start div 32)"
    by (intro skip_zero_words_end) auto
  then show ?thesis
    by (simp add: next_set_def Let_def shift5_eq_div)
qed

subsection \<open>Identifiers and the block map\<close>

lemma id_block_eq: "drop_bit BLOCK_BITS (oid::int) = oid div 65536"
  by (simp add: BLOCK_BITS_def drop_bit_eq_div)

lemma id_offset_eq: "(oid::int) AND int BLOCK_MASK = oid mod 65536"
proof -
  have "oid AND mask 16 = oid mod 2 ^ 16"
    by (simp only: take_bit_eq_mask [symmetric] take_bit_eq_mod)
  then show ?thesis by (simp add: BLOCK_MASK_eq mask_eq_exp_minus_1)
qed

lemma id_offset_less: "nat ((oid::int) AND int BLOCK_MASK) < BLOCK_SIZE"
  by (simp add: id_offset_eq BLOCK_SIZE_eq)

lemma id_join_eq:
  assumes "off < BLOCK_SIZE"
  shows "push_bit BLOCK_BITS (k::int) OR int off = k * 65536 + int off"
proof -
  have "take_bit 16 (int off) = int off"
    using assms by (simp add: take_bit_int_eq_self BLOCK_SIZE_eq)
  then have "push_bit 16 k OR int off = push_bit 16 k + int off"
    by (metis add.commute concat_bit_def concat_bit_eq or.commute)
  then show ?thesis by (simp add: BLOCK_BITS_def push_bit_eq_mult)
qed

lemma wf_map_Nil: "wf_map []"
  by (simp add: wf_map_def)

lemma wf_map_Cons:
  "wf_map ((k, b) # m) \<longleftrightarrow> wf_block b \<and> (\<forall>k' \<in> fst ` set m. k < k') \<and> wf_map m"
  by (auto simp: wf_map_def)

lemma wf_map_head_absent: "wf_map ((k, b) # m) \<Longrightarrow> map_of m k = None"
  by (force simp: wf_map_Cons map_of_eq_None_iff)

lemma wf_map_of: "wf_map m \<Longrightarrow> map_of m k = Some b \<Longrightarrow> wf_block b"
  by (auto simp: wf_map_def dest!: map_of_SomeD intro: rev_image_eqI)

lemma map_fst_map_subscript:
  "set (map fst (map_subscript f k m)) = insert k (set (map fst m))"
  by (induction f k m rule: map_subscript.induct) auto

lemma keys_map_subscript: "fst ` set (map_subscript f k m) = insert k (fst ` set m)"
  using map_fst_map_subscript [of f k m] by simp

lemma wf_map_subscript:
  assumes "wf_map m" "\<And>b. wf_block b \<Longrightarrow> wf_block (f b)"
  shows "wf_map (map_subscript f k m)"
  using assms(1)
proof (induction m)
  case Nil
  then show ?case by (simp add: wf_map_Cons wf_map_Nil assms(2) wf_new_block)
next
  case (Cons e m)
  obtain k' b where e: "e = (k', b)" by (cases e)
  with Cons show ?case
    by (auto simp: wf_map_Cons assms(2) wf_new_block keys_map_subscript)
qed

lemma map_of_map_subscript:
  "map_of (map_subscript f k m) =
     (map_of m)(k \<mapsto> f (case map_of m k of None \<Rightarrow> new_block | Some b \<Rightarrow> b))" if "wf_map m"
  using that
proof (induction m)
  case Nil
  then show ?case by simp
next
  case (Cons e m)
  obtain k' b where e: "e = (k', b)" by (cases e)
  have absent: "map_of m k = None" if "k < k'"
    using Cons.prems that e by (force simp: wf_map_Cons map_of_eq_None_iff)
  from Cons e show ?case
    by (auto simp: wf_map_Cons absent fun_upd_twist)
qed

lemma pimpl_get_eq:
  "pimpl_get p oid =
     (case map_of (pending p) (oid div 65536) of None \<Rightarrow> False
      | Some b \<Rightarrow> block_get b (nat (oid mod 65536)))"
  by (simp add: pimpl_get_def Let_def id_block_eq id_offset_eq)

lemma id_eq_iff: "(a::int) = b \<longleftrightarrow> a div 65536 = b div 65536 \<and> nat (a mod 65536) = nat (b mod 65536)"
  by (smt (verit) div_mult_mod_eq nat_eq_iff2 pos_mod_sign)

lemma pimpl_get_set:
  assumes "wf_map (pending p)"
  shows "pimpl_get (pimpl_set p oid v) oid' = (if oid' = oid then v else pimpl_get p oid')"
proof -
  let ?k = "oid div 65536" and ?off = "nat (oid mod 65536)" and ?off' = "nat (oid' mod 65536)"
  define b0 where "b0 = (case map_of (pending p) ?k of None \<Rightarrow> new_block | Some b \<Rightarrow> b)"
  have pend: "pending (pimpl_set p oid v) = map_subscript (\<lambda>b. block_set b ?off v) ?k (pending p)"
    by (simp add: pimpl_set_def Let_def id_block_eq id_offset_eq)
  have m': "map_of (pending (pimpl_set p oid v)) = (map_of (pending p))(?k \<mapsto> block_set b0 ?off v)"
    unfolding pend b0_def by (rule map_of_map_subscript [OF assms])
  have off: "?off < BLOCK_SIZE" "?off' < BLOCK_SIZE"
    by (simp_all add: BLOCK_SIZE_eq)
  have wf0: "wf_block b0"
    using assms by (auto simp: b0_def wf_new_block dest: wf_map_of split: option.splits)
  show ?thesis
  proof (cases "oid' div 65536 = ?k")
    case True
    have old: "pimpl_get p oid' = block_get b0 ?off'"
      using off(2) by (simp add: pimpl_get_eq True b0_def block_get_new_block split: option.splits)
    have new: "pimpl_get (pimpl_set p oid v) oid' = block_get (block_set b0 ?off v) ?off'"
      by (simp add: pimpl_get_eq True m')
    have "oid' = oid \<longleftrightarrow> ?off' = ?off"
      using True by (simp add: id_eq_iff [of oid' oid])
    then show ?thesis
      by (simp add: new old block_get_set [OF wf0 off(1)])
  next
    case False
    then have "oid' \<noteq> oid" by auto
    with False show ?thesis
      by (simp add: pimpl_get_eq m')
  qed
qed

lemma wf_map_pimpl_set: "wf_map (pending p) \<Longrightarrow> wf_map (pending (pimpl_set p oid v))"
  by (simp add: pimpl_set_def Let_def wf_map_subscript wf_block_set)

lemma next_start_pimpl_set: "next_start (pimpl_set p oid v) = None"
  by (simp add: pimpl_set_def Let_def)

subsection \<open>The loop of \<^verbatim>\<open>pop_min\<close>\<close>

lemma first_set_props:
  assumes "\<not> block_empty b"
  shows "first_set b < BLOCK_SIZE" "block_get b (first_set b)" "\<forall>off<first_set b. \<not> block_get b off"
proof -
  from assms obtain off where off: "off < BLOCK_SIZE" "block_get b off"
    by (auto simp: block_empty_def)
  show "block_get b (first_set b)"
    unfolding first_set_def using off(2) by (rule LeastI)
  have "first_set b \<le> off"
    unfolding first_set_def using off(2) by (rule Least_le)
  then show "first_set b < BLOCK_SIZE" using off(1) by simp
  show "\<forall>off<first_set b. \<not> block_get b off"
    unfolding first_set_def using not_less_Least by blast
qed

lemma pop_min_body_found:
  assumes inv: "tracker_inv p" and pend: "pending p = (k, b) # rest"
    and r: "r < BLOCK_SIZE" "block_get b r" "\<forall>off<r. \<not> block_get b off"
  shows "pop_min_body p =
    Break (k * 65536 + int r) (p\<lparr>pending := (k, block_set b r False) # rest, next_start := Some r\<rparr>)"
proof -
  let ?start = "case next_start p of None \<Rightarrow> 0 | Some s \<Rightarrow> s"
  have wf: "wf_block b"
    using inv pend by (simp add: tracker_inv_def wf_map_Cons)
  have "?start \<le> r"
  proof (cases "next_start p")
    case (Some s)
    with inv pend have "\<forall>off. off < s \<longrightarrow> \<not> block_get b off"
      by (simp add: tracker_inv_def cursor_ok_def)
    with r(2) have "\<not> r < s" by blast
    with Some show ?thesis by simp
  qed simp
  then have lo: "32 * (?start div 32) \<le> r" by linarith
  have "next_set b ?start = Some r"
    using wf r(1) r(2) lo r(3) by (intro next_set_found) auto
  then show ?thesis
    using r(1) by (simp add: pop_min_body_def pend id_join_eq)
qed

lemma pop_min_body_empty:
  assumes pend: "pending p = (k, b) # rest" and empty: "block_empty b"
  shows "pop_min_body p = Continue (p\<lparr>pending := rest, next_start := None\<rparr>)"
proof -
  let ?start = "case next_start p of None \<Rightarrow> 0 | Some s \<Rightarrow> s"
  have "next_set b ?start = Some BLOCK_SIZE"
    using empty by (intro next_set_none) (simp add: block_empty_def)
  then show ?thesis
    by (simp add: pop_min_body_def pend)
qed

lemma tracker_inv_tail:
  "tracker_inv p \<Longrightarrow> pending p = e # rest \<Longrightarrow> tracker_inv (p\<lparr>pending := rest, next_start := None\<rparr>)"
  by (cases e) (simp add: tracker_inv_def cursor_ok_def wf_map_Cons)

lemma pop_min_loop_eq:
  assumes "tracker_inv p"
  shows "pop_min_loop d p =
    (case dropWhile (\<lambda>e. block_empty (snd e)) (pending p) of
       [] \<Rightarrow> Inr (d, p\<lparr>pending := [], next_start := None\<rparr>)
     | (k, b) # rest \<Rightarrow>
         Inr (k * 65536 + int (first_set b),
              p\<lparr>pending := (k, block_set b (first_set b) False) # rest,
                next_start := Some (first_set b)\<rparr>))"
  using assms
proof (induction m \<equiv> "pending p" arbitrary: p)
  case Nil
  then have "next_start p = None"
    by (auto simp: tracker_inv_def cursor_ok_def split: option.splits)
  with Nil(1) have "pop_min_loop d p = Inr (d, p)"
    by (subst pop_min_loop.simps) simp
  moreover have "p\<lparr>pending := [], next_start := None\<rparr> = p"
    using Nil(1) \<open>next_start p = None\<close> by simp
  ultimately show ?case using Nil(1) [symmetric] by simp
next
  case (Cons e rest)
  obtain k b where e: "e = (k, b)" by (cases e)
  have pend: "pending p = (k, b) # rest" using Cons(2) e by simp
  show ?case
  proof (cases "block_empty b")
    case True
    let ?p2 = "p\<lparr>pending := rest, next_start := None\<rparr>"
    have inv2: "tracker_inv ?p2" using Cons.prems pend by (rule tracker_inv_tail)
    have loop: "pop_min_loop d p = pop_min_loop d ?p2"
      using pend by (subst pop_min_loop.simps) (simp add: pop_min_body_empty [OF pend True])
    have "rest = pending ?p2" by simp
    from Cons.hyps(1) [OF this inv2]
    have IH: "pop_min_loop d ?p2 =
      (case dropWhile (\<lambda>e. block_empty (snd e)) rest of
         [] \<Rightarrow> Inr (d, ?p2\<lparr>pending := [], next_start := None\<rparr>)
       | (k, b) # rest' \<Rightarrow>
           Inr (k * 65536 + int (first_set b),
                ?p2\<lparr>pending := (k, block_set b (first_set b) False) # rest',
                  next_start := Some (first_set b)\<rparr>))"
      by simp
    show ?thesis
    proof (cases "dropWhile (\<lambda>e. block_empty (snd e)) rest")
      case Nil
      show ?thesis using IH by (simp add: loop pend True Nil)
    next
      case (Cons e' rest')
      obtain k' b' where e': "e' = (k', b')" by (cases e')
      show ?thesis using IH by (simp add: loop pend True Cons e')
    qed
  next
    case False
    note r = first_set_props [OF False]
    have "pop_min_loop d p = Inr (k * 65536 + int (first_set b),
            p\<lparr>pending := (k, block_set b (first_set b) False) # rest,
              next_start := Some (first_set b)\<rparr>)"
      using pend by (subst pop_min_loop.simps) (simp add: pop_min_body_found [OF Cons.prems pend r])
    then show ?thesis by (simp add: pend False)
  qed
qed

subsection \<open>The identifiers a map holds\<close>

lemma pimpl_get_map_get: "pimpl_get p oid = map_get (pending p) oid"
  by (simp add: pimpl_get_eq map_get_def)

lemma map_get_Nil: "map_get [] oid = False"
  by (simp add: map_get_def)

lemma map_get_Cons:
  "map_get ((k, b) # m) oid =
     (if oid div 65536 = k then block_get b (nat (oid mod 65536)) else map_get m oid)"
  by (simp add: map_get_def)

lemma map_get_key: "map_get m oid \<Longrightarrow> oid div 65536 \<in> fst ` set m"
  by (auto simp: map_get_def split: option.splits dest!: map_of_SomeD intro: rev_image_eqI)

lemma map_get_skip_empty:
  assumes "wf_map ((k, b) # m)" "block_empty b"
  shows "map_get ((k, b) # m) oid = map_get m oid"
proof (cases "oid div 65536 = k")
  case True
  have "nat (oid mod 65536) < BLOCK_SIZE" by (simp add: BLOCK_SIZE_eq)
  then have "\<not> block_get b (nat (oid mod 65536))"
    using assms(2) by (simp add: block_empty_def)
  moreover have "\<not> map_get m oid"
    using wf_map_head_absent [OF assms(1)] True by (simp add: map_get_def)
  ultimately show ?thesis using True by (simp add: map_get_Cons)
qed (simp add: map_get_Cons)

lemma wf_map_dropWhile: "wf_map m \<Longrightarrow> wf_map (dropWhile P m)"
  by (induction m) (auto simp: wf_map_Cons)

lemma map_get_dropWhile:
  "wf_map m \<Longrightarrow> map_get (dropWhile (\<lambda>e. block_empty (snd e)) m) oid = map_get m oid"
proof (induction m)
  case (Cons e m)
  obtain k b where e: "e = (k, b)" by (cases e)
  show ?case
  proof (cases "block_empty b")
    case True
    have "wf_map m" using Cons.prems e by (simp add: wf_map_Cons)
    then show ?thesis
      using Cons.IH map_get_skip_empty [OF Cons.prems [unfolded e] True] by (simp add: e True)
  qed (simp add: e)
qed simp

lemma map_get_lower:
  assumes wf: "wf_map ((k, b) # m)" and ne: "\<not> block_empty b" and get: "map_get ((k, b) # m) oid"
  shows "k * 65536 + int (first_set b) \<le> oid"
proof (cases "oid div 65536 = k")
  case True
  with get have "block_get b (nat (oid mod 65536))" by (simp add: map_get_Cons)
  then have "first_set b \<le> nat (oid mod 65536)"
    using first_set_props(3) [OF ne] by (meson not_le_imp_less)
  then have "int (first_set b) \<le> oid mod 65536" by simp
  moreover have "oid = k * 65536 + oid mod 65536"
    using True div_mult_mod_eq [of oid 65536] by simp
  ultimately show ?thesis by linarith
next
  case False
  with get have "map_get m oid" by (simp add: map_get_Cons)
  then have "oid div 65536 \<in> fst ` set m" by (rule map_get_key)
  then have "k < oid div 65536" using wf by (auto simp: wf_map_Cons)
  then have "k * 65536 + 65536 \<le> (oid div 65536) * 65536" by linarith
  moreover have "(oid div 65536) * 65536 \<le> oid"
    using div_mult_mod_eq [of oid 65536] pos_mod_sign [of 65536 oid] by linarith
  ultimately have "k * 65536 + 65536 \<le> oid" by linarith
  moreover have "int (first_set b) < 65536"
    using first_set_props(1) [OF ne] by (simp add: BLOCK_SIZE_eq)
  ultimately show ?thesis by linarith
qed

subsection \<open>What \<^verbatim>\<open>pop_min\<close> returns\<close>

lemma join_div: "r < BLOCK_SIZE \<Longrightarrow> (k * 65536 + int r) div 65536 = k"
  by (simp add: BLOCK_SIZE_eq)

lemma join_mod: "r < BLOCK_SIZE \<Longrightarrow> nat ((k * 65536 + int r) mod 65536) = r"
  by (simp add: BLOCK_SIZE_eq)

lemma dropWhile_Cons_not: "dropWhile P xs = y # ys \<Longrightarrow> \<not> P y"
  by (metis hd_dropWhile list.distinct(1) list.sel(1))

lemma pop_min_loop_spec:
  assumes inv: "tracker_inv p"
  shows "\<exists>m p'. pop_min_loop d p = Inr (m, p') \<and> tracker_inv p' \<and> old_id p' = old_id p
           \<and> (\<forall>oid. pimpl_get p' oid \<longleftrightarrow> pimpl_get p oid \<and> oid \<noteq> m)
           \<and> ((\<exists>oid. pimpl_get p oid) \<longrightarrow> pimpl_get p m \<and> (\<forall>oid. pimpl_get p oid \<longrightarrow> m \<le> oid))
           \<and> ((\<forall>oid. \<not> pimpl_get p oid) \<longrightarrow> m = d)"
proof -
  let ?D = "dropWhile (\<lambda>e. block_empty (snd e)) (pending p)"
  have wf: "wf_map (pending p)" using inv by (simp add: tracker_inv_def)
  have wfD: "wf_map ?D" using wf by (rule wf_map_dropWhile)
  have getD: "pimpl_get p oid = map_get ?D oid" for oid
    by (simp add: pimpl_get_map_get map_get_dropWhile [OF wf])
  show ?thesis
  proof (cases ?D)
    case Nil
    let ?p' = "p\<lparr>pending := [], next_start := None\<rparr>"
    have "pop_min_loop d p = Inr (d, ?p')"
      by (simp add: pop_min_loop_eq [OF inv] Nil)
    moreover have "tracker_inv ?p'"
      by (simp add: tracker_inv_def wf_map_Nil cursor_ok_def)
    moreover have "\<not> pimpl_get p oid" for oid
      by (simp add: getD Nil map_get_Nil)
    moreover have "\<not> pimpl_get ?p' oid" for oid
      by (simp add: pimpl_get_map_get map_get_Nil)
    ultimately show ?thesis by simp
  next
    case (Cons e rest)
    obtain k b where e: "e = (k, b)" by (cases e)
    have D: "?D = (k, b) # rest" using Cons e by simp
    have ne: "\<not> block_empty b"
      using dropWhile_Cons_not [OF D] by simp
    note r = first_set_props [OF ne]
    let ?r = "first_set b"
    let ?m = "k * 65536 + int ?r"
    let ?b' = "block_set b ?r False"
    let ?p' = "p\<lparr>pending := (k, ?b') # rest, next_start := Some ?r\<rparr>"
    have wfb: "wf_block b" and wfrest: "wf_map ((k, b) # rest)"
      using wfD by (simp_all add: D wf_map_Cons)
    have get_b': "block_get ?b' off = (off \<noteq> ?r \<and> block_get b off)" for off
      by (simp add: block_get_set [OF wfb r(1)])
    have loop: "pop_min_loop d p = Inr (?m, ?p')"
      by (simp add: pop_min_loop_eq [OF inv] D)
    have inv': "tracker_inv ?p'"
      using wfrest r(1) r(3)
      by (simp add: tracker_inv_def cursor_ok_def wf_map_Cons wf_block_set get_b')
    have get_p: "pimpl_get p oid =
        (if oid div 65536 = k then block_get b (nat (oid mod 65536)) else map_get rest oid)" for oid
      by (simp add: getD D map_get_Cons)
    have get_p': "pimpl_get ?p' oid =
        (if oid div 65536 = k then block_get ?b' (nat (oid mod 65536)) else map_get rest oid)" for oid
      by (simp add: pimpl_get_map_get map_get_Cons)
    have m_iff: "oid = ?m \<longleftrightarrow> oid div 65536 = k \<and> nat (oid mod 65536) = ?r" for oid
    proof -
      have "oid = ?m \<longleftrightarrow>
          oid div 65536 = ?m div 65536 \<and> nat (oid mod 65536) = nat (?m mod 65536)"
        by (rule id_eq_iff)
      then show ?thesis
        by (simp only: join_div [OF r(1)] join_mod [OF r(1)])
    qed
    have frame: "pimpl_get ?p' oid \<longleftrightarrow> pimpl_get p oid \<and> oid \<noteq> ?m" for oid
      by (auto simp: get_p get_p' get_b' m_iff)
    have marked: "pimpl_get p ?m"
      unfolding get_p join_div [OF r(1)] join_mod [OF r(1)] using r(2) by simp
    have least: "?m \<le> oid" if "pimpl_get p oid" for oid
      using that map_get_lower [OF wfrest ne] by (simp add: getD D)
    show ?thesis
      using loop inv' frame marked least by (intro exI [of _ ?m] exI [of _ ?p']) auto
  qed
qed

subsection \<open>The public interface on reachable states\<close>

lemma pimpl_get_old_id: "pimpl_get (p\<lparr>old_id := x\<rparr>) oid = pimpl_get p oid"
  by (simp add: pimpl_get_def)

lemma tracker_inv_old_id: "tracker_inv (p\<lparr>old_id := x\<rparr>) = tracker_inv p"
  by (simp add: tracker_inv_def cursor_ok_def split: option.splits)

lemma tracker_inv_new: "tracker_inv (id_tracker L)"
  by (simp add: tracker_inv_def cursor_ok_def id_tracker_def wf_map_Nil)

lemma tracker_inv_mark: "wf_map (pending t) \<Longrightarrow> tracker_inv (mark L t oid)"
  by (simp add: tracker_inv_def cursor_ok_def mark_def wf_map_pimpl_set next_start_pimpl_set)

lemma pimpl_get_mark:
  "wf_map (pending t) \<Longrightarrow> pimpl_get (mark L t oid) oid' \<longleftrightarrow> oid' = oid \<or> pimpl_get t oid'"
  by (simp add: mark_def pimpl_get_old_id pimpl_get_set)

lemma pimpl_get_new: "\<not> pimpl_get (id_tracker L) oid"
  by (simp add: pimpl_get_map_get id_tracker_def map_get_Nil)

lemma pop_mark_Inr:
  assumes "pop_mark L t = Inr (oid, t')"
  obtains p where "pop_min L t = Inr (oid, p)" "t' = p\<lparr>old_id := oid\<rparr>"
    "old_id p < oid \<or> oid = lim_max L"
  using assms by (auto simp: pop_mark_def split: sum.splits if_splits)

lemma pop_mark_spec:
  assumes "tracker_inv t" "pop_mark L t = Inr (oid, t')"
  shows "tracker_inv t'" "old_id t' = oid" "old_id t < oid \<or> oid = lim_max L"
    "pimpl_get t' oid' \<longleftrightarrow> pimpl_get t oid' \<and> oid' \<noteq> oid"
    "pimpl_get t x \<Longrightarrow> pimpl_get t oid \<and> oid \<le> x"
    "(\<forall>x. \<not> pimpl_get t x) \<Longrightarrow> oid = lim_max L"
proof -
  from assms(2) obtain p where p: "pop_min L t = Inr (oid, p)" "t' = p\<lparr>old_id := oid\<rparr>"
    "old_id p < oid \<or> oid = lim_max L"
    by (rule pop_mark_Inr)
  from pop_min_loop_spec [OF assms(1), of "lim_max L"] p(1)
  have spec: "tracker_inv p" "old_id p = old_id t"
    "\<forall>x. pimpl_get p x \<longleftrightarrow> pimpl_get t x \<and> x \<noteq> oid"
    "(\<exists>x. pimpl_get t x) \<longrightarrow> pimpl_get t oid \<and> (\<forall>x. pimpl_get t x \<longrightarrow> oid \<le> x)"
    "(\<forall>x. \<not> pimpl_get t x) \<longrightarrow> oid = lim_max L"
    by (auto simp: pop_min_def)
  show "tracker_inv t'" using spec(1) p(2) by (simp add: tracker_inv_old_id)
  show "old_id t' = oid" using p(2) by simp
  show "old_id t < oid \<or> oid = lim_max L" using p(3) spec(2) by simp
  show "pimpl_get t' oid' \<longleftrightarrow> pimpl_get t oid' \<and> oid' \<noteq> oid"
    using spec(3) p(2) by (simp add: pimpl_get_old_id)
  show "pimpl_get t x \<Longrightarrow> pimpl_get t oid \<and> oid \<le> x" using spec(4) by blast
  show "(\<forall>x. \<not> pimpl_get t x) \<Longrightarrow> oid = lim_max L" using spec(5) by blast
qed

lemma reachable_inv: "reachable L t \<Longrightarrow> tracker_inv t"
proof (induction rule: reachable.induct)
  case reach_new
  show ?case by (rule tracker_inv_new)
next
  case (reach_mark t oid)
  then have "wf_map (pending t)" by (simp add: tracker_inv_def)
  then show ?case by (rule tracker_inv_mark)
next
  case (reach_is_marked t oid)
  then show ?case by (simp add: is_marked_def)
next
  case (reach_pop_mark t oid t')
  then show ?case by (simp add: pop_mark_spec(1))
qed

subsection \<open>Runs on a new tracker\<close>

lemma first_set_eq:
  "block_get b r \<Longrightarrow> (\<forall>off<r. \<not> block_get b off) \<Longrightarrow> first_set b = r"
  unfolding first_set_def by (rule Least_equality) (auto simp: not_less [symmetric])

lemma block_empty_set: "wf_block b \<Longrightarrow> i < BLOCK_SIZE \<Longrightarrow> \<not> block_empty (block_set b i True)"
  by (auto simp: block_empty_def block_get_set)

lemma first_set_single: "i < BLOCK_SIZE \<Longrightarrow> first_set (block_set new_block i True) = i"
  by (rule first_set_eq) (simp_all add: block_get_set wf_new_block block_get_new_block)

text \<open>The state after marking one identifier on a new tracker, and the pop that follows.\<close>

lemma mark_new:
  "mark L (id_tracker L) oid =
     \<lparr>pending = [(drop_bit BLOCK_BITS oid, block_set new_block (nat (oid AND int BLOCK_MASK)) True)],
      old_id = lim_min L, next_start = None\<rparr>"
  by (simp add: mark_def pimpl_set_def id_tracker_def)

lemma pop_min_single:
  assumes "i < BLOCK_SIZE"
  shows "pop_min L \<lparr>pending = [(k, block_set new_block i True)], old_id = x, next_start = None\<rparr> =
    Inr (k * 65536 + int i,
         \<lparr>pending = [(k, block_set (block_set new_block i True) i False)],
          old_id = x, next_start = Some i\<rparr>)"
proof -
  let ?t = "\<lparr>pending = [(k, block_set new_block i True)], old_id = x, next_start = None\<rparr>"
  have "tracker_inv ?t"
    by (simp add: tracker_inv_def cursor_ok_def wf_map_Cons wf_map_Nil wf_block_set wf_new_block)
  from pop_min_loop_eq [OF this, of "lim_max L"] show ?thesis
    using assms
    by (simp add: pop_min_def block_empty_set wf_new_block first_set_single)
qed

lemma pop_mark_5:
  "pop_mark uint64_limits (mark uint64_limits (id_tracker uint64_limits) 5) =
     Inr (5, \<lparr>pending = [(0, block_set (block_set new_block 5 True) 5 False)],
              old_id = 5, next_start = Some 5\<rparr>)"
proof -
  have "mark uint64_limits (id_tracker uint64_limits) 5 =
      \<lparr>pending = [(0, block_set new_block 5 True)], old_id = 0, next_start = None\<rparr>"
    by (simp add: mark_new BLOCK_BITS_def BLOCK_MASK_eq uint64_limits_def)
  then show ?thesis
    by (simp add: pop_mark_def pop_min_single BLOCK_SIZE_eq uint64_limits_def)
qed

subsection \<open>The passes through the loop of \<^verbatim>\<open>pop_min\<close>\<close>

lemma pop_min_body_Continue:
  assumes "pop_min_body p = Continue p'"
  shows "pending p \<noteq> []" "p' = p\<lparr>pending := tl (pending p), next_start := None\<rparr>"
  using assms
  by (auto simp: pop_min_body_def Let_def split: list.splits option.splits if_splits)

lemma pop_min_fuel_enough:
  "length (pending p) < n \<Longrightarrow> pop_min_fuel n d p = Some (pop_min_loop d p)"
proof (induction n arbitrary: p)
  case 0
  then show ?case by simp
next
  case (Suc n)
  show ?case
  proof (cases "pop_min_body p")
    case (Continue p')
    from pop_min_body_Continue [OF this] Suc.prems have "length (pending p') < n"
      by (cases "pending p") auto
    then have "pop_min_fuel n d p' = Some (pop_min_loop d p')" by (rule Suc.IH)
    then show ?thesis
      by (subst pop_min_loop.simps) (simp add: Continue)
  qed (subst pop_min_loop.simps, simp)+
qed

lemma pop_min_body_cases:
  assumes "tracker_inv p" "pending p \<noteq> []"
  shows "(\<exists>oid p'. pop_min_body p = Break oid p') \<or>
         pop_min_body p = Continue (p\<lparr>pending := tl (pending p), next_start := None\<rparr>)"
proof -
  from assms(2) obtain k b rest where pend: "pending p = (k, b) # rest"
    by (cases "pending p") auto
  show ?thesis
  proof (cases "block_empty b")
    case True
    from pop_min_body_empty [OF pend True] show ?thesis by (simp add: pend)
  next
    case False
    from pop_min_body_found [OF assms(1) pend first_set_props [OF False]]
    show ?thesis by simp
  qed
qed

lemma pop_min_visits_inv: "pop_min_visits t p \<Longrightarrow> tracker_inv t \<Longrightarrow> tracker_inv p"
proof (induction rule: pop_min_visits.induct)
  case visit_first
  then show ?case by simp
next
  case (visit_next p p')
  from pop_min_body_Continue [OF visit_next(3)]
  obtain e rest where "pending p = e # rest" "p' = p\<lparr>pending := rest, next_start := None\<rparr>"
    by (cases "pending p") auto
  with visit_next show ?case by (simp add: tracker_inv_tail)
qed

subsection \<open>The assertion of \<^verbatim>\<open>pop_mark\<close>\<close>

lemma pop_min_min:
  assumes inv: "tracker_inv t" and m: "pimpl_get t m" "\<forall>x. pimpl_get t x \<longrightarrow> m \<le> x"
  shows "\<exists>p. pop_min L t = Inr (m, p) \<and> tracker_inv p \<and> old_id p = old_id t \<and>
           (\<forall>x. pimpl_get p x \<longleftrightarrow> pimpl_get t x \<and> x \<noteq> m)"
proof -
  from pop_min_loop_spec [OF inv, of "lim_max L"]
  obtain m' p where p: "pop_min L t = Inr (m', p)" "tracker_inv p" "old_id p = old_id t"
    "\<forall>x. pimpl_get p x \<longleftrightarrow> pimpl_get t x \<and> x \<noteq> m'"
    "(\<exists>x. pimpl_get t x) \<longrightarrow> pimpl_get t m' \<and> (\<forall>x. pimpl_get t x \<longrightarrow> m' \<le> x)"
    unfolding pop_min_def by blast
  from p(5) m(1) have "pimpl_get t m'" "m' \<le> m" by blast+
  moreover from m(2) \<open>pimpl_get t m'\<close> have "m \<le> m'" by blast
  ultimately have "m' = m" by simp
  with p show ?thesis by blast
qed

lemma pop_min_none:
  assumes inv: "tracker_inv t" and none: "\<forall>x. \<not> pimpl_get t x"
  shows "\<exists>p. pop_min L t = Inr (lim_max L, p) \<and> tracker_inv p \<and> old_id p = old_id t \<and>
           (\<forall>x. \<not> pimpl_get p x)"
proof -
  from pop_min_loop_spec [OF inv, of "lim_max L"]
  obtain m' p where p: "pop_min L t = Inr (m', p)" "tracker_inv p" "old_id p = old_id t"
    "\<forall>x. pimpl_get p x \<longleftrightarrow> pimpl_get t x \<and> x \<noteq> m'"
    "(\<forall>x. \<not> pimpl_get t x) \<longrightarrow> m' = lim_max L"
    unfolding pop_min_def by blast
  from p(5) none have "m' = lim_max L" by blast
  with p none show ?thesis by blast
qed

lemma pop_mark_fails:
  assumes "tracker_inv t" "pimpl_get t m" "\<forall>x. pimpl_get t x \<longrightarrow> m \<le> x"
    and "\<not> old_id t < m" "m \<noteq> lim_max L"
  shows "pop_mark L t = Inl AssertionFailed"
proof -
  from pop_min_min [OF assms(1-3), of L]
  obtain p where "pop_min L t = Inr (m, p)" "old_id p = old_id t" by blast
  with assms(4,5) show ?thesis by (simp add: pop_mark_def)
qed

lemma pop_mark_returns:
  assumes "tracker_inv t" "pimpl_get t m" "\<forall>x. pimpl_get t x \<longrightarrow> m \<le> x"
    and "old_id t < m \<or> m = lim_max L"
  shows "\<exists>t'. pop_mark L t = Inr (m, t') \<and> tracker_inv t' \<and> old_id t' = m \<and>
           (\<forall>x. pimpl_get t' x \<longleftrightarrow> pimpl_get t x \<and> x \<noteq> m)"
proof -
  from pop_min_min [OF assms(1-3), of L]
  obtain p where p: "pop_min L t = Inr (m, p)" "tracker_inv p" "old_id p = old_id t"
    "\<forall>x. pimpl_get p x \<longleftrightarrow> pimpl_get t x \<and> x \<noteq> m" by blast
  have "pop_mark L t = Inr (m, p\<lparr>old_id := m\<rparr>)"
    using p(1,3) assms(4) by (auto simp: pop_mark_def)
  then show ?thesis
    using p(2,4) by (simp add: tracker_inv_old_id pimpl_get_old_id)
qed

lemma pop_mark_sentinel:
  assumes "tracker_inv t" "\<forall>x. \<not> pimpl_get t x"
  shows "\<exists>t'. pop_mark L t = Inr (lim_max L, t') \<and> tracker_inv t' \<and> old_id t' = lim_max L \<and>
           (\<forall>x. \<not> pimpl_get t' x)"
proof -
  from pop_min_none [OF assms, of L]
  obtain p where p: "pop_min L t = Inr (lim_max L, p)" "tracker_inv p" "\<forall>x. \<not> pimpl_get p x"
    by blast
  have "pop_mark L t = Inr (lim_max L, p\<lparr>old_id := lim_max L\<rparr>)"
    using p(1) by (simp add: pop_mark_def)
  then show ?thesis
    using p(2,3) by (simp add: tracker_inv_old_id pimpl_get_old_id)
qed

lemma old_id_mark: "old_id (mark L t oid) = lim_min L"
  by (simp add: mark_def)

text \<open>
  The guard in a reachable state: it is the minimum of the type, or below every pending
  identifier.
\<close>
lemma reachable_guard:
  assumes "reachable L t" "lim_min L \<le> lim_max L"
  shows "lim_min L \<le> old_id t \<and>
    (\<forall>x. pimpl_get t x \<longrightarrow> lim_min L \<le> x \<and> (old_id t < x \<or> old_id t = lim_min L))"
  using assms(1)
proof (induction rule: reachable.induct)
  case reach_new
  show ?case by (simp add: pimpl_get_new) (simp add: id_tracker_def)
next
  case (reach_mark t oid)
  have "wf_map (pending t)"
    using reachable_inv [OF reach_mark(1)] by (simp add: tracker_inv_def)
  then show ?case
    using reach_mark by (auto simp: pimpl_get_mark old_id_mark)
next
  case (reach_is_marked t oid)
  then show ?case by (simp add: is_marked_def)
next
  case (reach_pop_mark t oid t')
  note spec = pop_mark_spec [OF reachable_inv [OF reach_pop_mark(1)] reach_pop_mark(2)]
  have lo: "lim_min L \<le> oid"
  proof (cases "\<exists>x. pimpl_get t x")
    case True
    then have "pimpl_get t oid" using spec(5) by blast
    then show ?thesis using reach_pop_mark.IH by blast
  next
    case False
    then have "oid = lim_max L" using spec(6) by blast
    then show ?thesis using assms(2) by simp
  qed
  have "lim_min L \<le> x \<and> oid < x" if "pimpl_get t' x" for x
  proof -
    from that have x: "pimpl_get t x" "x \<noteq> oid" using spec(4) by blast+
    then have "oid \<le> x" using spec(5) by blast
    with x show ?thesis using reach_pop_mark.IH by auto
  qed
  then show ?case using lo spec(2) by auto
qed

text \<open>
  What \<^verbatim>\<open>pop_mark\<close> does in every reachable state, whatever the limits of the identifier
  type: with nothing pending it returns the maximum; otherwise it returns and removes the
  smallest pending identifier, except that the assertion fails when that identifier is the
  minimum of the type (and not also its maximum).
\<close>
lemma pop_mark_reachable:
  assumes "reachable L t" "lim_min L \<le> lim_max L"
  shows "((\<forall>x. \<not> pimpl_get t x) \<longrightarrow> (\<exists>t'. pop_mark L t = Inr (lim_max L, t'))) \<and>
    (\<forall>m. pimpl_get t m \<and> (\<forall>x. pimpl_get t x \<longrightarrow> m \<le> x) \<longrightarrow>
       (if m = lim_min L \<and> m \<noteq> lim_max L then pop_mark L t = Inl AssertionFailed
        else \<exists>t'. pop_mark L t = Inr (m, t') \<and>
               (\<forall>x. pimpl_get t' x \<longleftrightarrow> pimpl_get t x \<and> x \<noteq> m)))"
proof (intro conjI allI impI)
  have inv: "tracker_inv t" using assms(1) by (rule reachable_inv)
  {
    assume "\<forall>x. \<not> pimpl_get t x"
    from pop_mark_sentinel [OF inv this, of L]
    show "\<exists>t'. pop_mark L t = Inr (lim_max L, t')" by blast
  }
  fix m
  assume "pimpl_get t m \<and> (\<forall>x. pimpl_get t x \<longrightarrow> m \<le> x)"
  then have m: "pimpl_get t m" "\<forall>x. pimpl_get t x \<longrightarrow> m \<le> x" by simp_all
  from reachable_guard [OF assms] m(1)
  have guard: "lim_min L \<le> old_id t" "lim_min L \<le> m" "old_id t < m \<or> old_id t = lim_min L"
    by blast+
  show "if m = lim_min L \<and> m \<noteq> lim_max L then pop_mark L t = Inl AssertionFailed
        else \<exists>t'. pop_mark L t = Inr (m, t') \<and>
               (\<forall>x. pimpl_get t' x \<longleftrightarrow> pimpl_get t x \<and> x \<noteq> m)"
  proof (cases "m = lim_min L \<and> m \<noteq> lim_max L")
    case True
    then have "\<not> old_id t < m" "m \<noteq> lim_max L" using guard(1) by simp_all
    then have "pop_mark L t = Inl AssertionFailed"
      by (rule pop_mark_fails [OF inv m])
    then show ?thesis unfolding if_P [OF True] .
  next
    case False
    have "old_id t < m \<or> m = lim_max L"
      using False guard(2,3) by linarith
    from pop_mark_returns [OF inv m this]
    obtain t' where "pop_mark L t = Inr (m, t')"
      "\<forall>x. pimpl_get t' x \<longleftrightarrow> pimpl_get t x \<and> x \<noteq> m"
      by blast
    then have "\<exists>t'. pop_mark L t = Inr (m, t') \<and>
               (\<forall>x. pimpl_get t' x \<longleftrightarrow> pimpl_get t x \<and> x \<noteq> m)"
      by blast
    then show ?thesis unfolding if_not_P [OF False] .
  qed
qed

lemma run_remark_min:
  assumes "lim_min L < a" "lim_min L \<noteq> lim_max L"
  shows "run L [Mark a, PopMark, Mark (lim_min L), PopMark] (id_tracker L) = Inl AssertionFailed"
proof -
  let ?t1 = "mark L (id_tracker L) a"
  have wf0: "wf_map (pending (id_tracker L))" by (simp add: id_tracker_def wf_map_Nil)
  have inv1: "tracker_inv ?t1" using wf0 by (rule tracker_inv_mark)
  have get1: "pimpl_get ?t1 x \<longleftrightarrow> x = a" for x
    by (simp add: pimpl_get_mark [OF wf0] pimpl_get_new)
  from pop_mark_returns [OF inv1, of a L] assms(1)
  obtain t2 where t2: "pop_mark L ?t1 = Inr (a, t2)" "tracker_inv t2"
    "\<forall>x. pimpl_get t2 x \<longleftrightarrow> pimpl_get ?t1 x \<and> x \<noteq> a"
    by (auto simp: get1 old_id_mark)
  let ?t3 = "mark L t2 (lim_min L)"
  have wf2: "wf_map (pending t2)" using t2(2) by (simp add: tracker_inv_def)
  have inv3: "tracker_inv ?t3" using wf2 by (rule tracker_inv_mark)
  have get3: "pimpl_get ?t3 x \<longleftrightarrow> x = lim_min L" for x
    using t2(3) by (simp add: pimpl_get_mark [OF wf2] get1)
  have "pop_mark L ?t3 = Inl AssertionFailed"
    using assms(2) by (intro pop_mark_fails [OF inv3, of "lim_min L"]) (simp_all add: get3 old_id_mark)
  then show ?thesis by (simp add: t2(1))
qed

lemma pop_mark_new_min:
  assumes "lim_min L \<noteq> lim_max L"
  shows "fst (is_marked (mark L (id_tracker L) (lim_min L)) (lim_min L)) \<and>
    pop_mark L (mark L (id_tracker L) (lim_min L)) = Inl AssertionFailed"
proof -
  let ?t = "mark L (id_tracker L) (lim_min L)"
  have wf0: "wf_map (pending (id_tracker L))" by (simp add: id_tracker_def wf_map_Nil)
  have inv: "tracker_inv ?t" using wf0 by (rule tracker_inv_mark)
  have get: "pimpl_get ?t x \<longleftrightarrow> x = lim_min L" for x
    by (simp add: pimpl_get_mark [OF wf0] pimpl_get_new)
  have a: "pimpl_get ?t (lim_min L)" by (simp add: get)
  have b: "\<forall>x. pimpl_get ?t x \<longrightarrow> lim_min L \<le> x" by (simp add: get)
  have c: "\<not> old_id ?t < lim_min L" by (simp add: old_id_mark)
  have "pop_mark L ?t = Inl AssertionFailed"
    using inv a b c assms by (rule pop_mark_fails)
  then show ?thesis using a by (simp add: is_marked_def)
qed

subsection \<open>Popping the last identifier of a block\<close>

lemma pop_min_loop_keys:
  assumes "tracker_inv p" "pop_min_loop d p = Inr (m, p')"
  shows "fst ` set (pending p') \<subseteq> fst ` set (dropWhile (\<lambda>e. block_empty (snd e)) (pending p))"
proof (cases "dropWhile (\<lambda>e. block_empty (snd e)) (pending p)")
  case Nil
  with assms show ?thesis by (auto simp: pop_min_loop_eq simp del: dropWhile_eq_Nil_conv)
next
  case (Cons e rest)
  obtain k b where e: "e = (k, b)" by (cases e)
  from assms show ?thesis
    by (auto simp: pop_min_loop_eq Cons e)
qed

lemma pop_min_last_of_block:
  assumes inv: "tracker_inv t" and pop: "pop_min L t = Inr (oid, p)" and marked: "pimpl_get t oid"
    and only: "\<forall>x. pimpl_get t x \<and> x div 65536 = oid div 65536 \<longrightarrow> x = oid"
  shows "\<exists>b rest. pending p = (oid div 65536, b) # rest \<and> block_empty b \<and>
           next_start p = Some (nat (oid mod 65536))"
proof -
  let ?D = "dropWhile (\<lambda>e. block_empty (snd e)) (pending t)"
  have wf: "wf_map (pending t)" using inv by (simp add: tracker_inv_def)
  have getD: "pimpl_get t x = map_get ?D x" for x
    by (simp add: pimpl_get_map_get map_get_dropWhile [OF wf])
  show ?thesis
  proof (cases ?D)
    case Nil
    with marked show ?thesis by (simp add: getD map_get_Nil)
  next
    case (Cons e rest)
    obtain k b where e: "e = (k, b)" by (cases e)
    have D: "?D = (k, b) # rest" using Cons e by simp
    have ne: "\<not> block_empty b" using dropWhile_Cons_not [OF D] by simp
    note r = first_set_props [OF ne]
    let ?r = "first_set b"
    let ?b' = "block_set b ?r False"
    have wfb: "wf_block b"
      using wf_map_dropWhile [OF wf, of "\<lambda>e. block_empty (snd e)"] by (simp add: D wf_map_Cons)
    from pop pop_min_loop_eq [OF inv, of "lim_max L"]
    have oid: "oid = k * 65536 + int ?r"
      and p: "p = t\<lparr>pending := (k, ?b') # rest, next_start := Some ?r\<rparr>"
      by (simp_all add: pop_min_def D)
    have k: "oid div 65536 = k" and off: "nat (oid mod 65536) = ?r"
      unfolding oid by (rule join_div [OF r(1)], rule join_mod [OF r(1)])
    have "\<not> block_get ?b' off" if "off < BLOCK_SIZE" for off
    proof
      assume "block_get ?b' off"
      then have b: "block_get b off" "off \<noteq> ?r"
        by (simp_all add: block_get_set [OF wfb r(1)] split: if_splits)
      let ?x = "k * 65536 + int off"
      have "?x div 65536 = k" "nat (?x mod 65536) = off"
        by (rule join_div [OF that], rule join_mod [OF that])
      then have "pimpl_get t ?x" "?x div 65536 = oid div 65536"
        unfolding getD D map_get_Cons using b(1) k by simp_all
      then have "?x = oid" using only by blast
      then show False using b(2) oid by simp
    qed
    then have "block_empty ?b'" by (simp add: block_empty_def)
    then show ?thesis by (simp add: p k off)
  qed
qed

subsection \<open>Replaying a sequence of calls\<close>













section \<open>The claims\<close>

text \<open>
  Claim C1 does not hold of the code where the smallest pending identifier is the minimum
  of the identifier type. After \<^verbatim>\<open>mark(0)\<close> on a new tracker over unsigned 64-bit
  identifiers, 0 is pending, and \<^verbatim>\<open>pop_mark()\<close> does not return it: its assertion fails. The
  same happens over signed 64-bit identifiers with the identifier \<open>- 2 ^ 63\<close>.
\<close>

theorem pop_mark_aborts_on_minimum:
  "fst (is_marked (mark uint64_limits (id_tracker uint64_limits) 0) 0) \<and>
   pop_mark uint64_limits (mark uint64_limits (id_tracker uint64_limits) 0) = Inl AssertionFailed \<and>
   fst (is_marked (mark int64_limits (id_tracker int64_limits) (- (2 ^ 63))) (- (2 ^ 63))) \<and>
   pop_mark int64_limits (mark int64_limits (id_tracker int64_limits) (- (2 ^ 63)))
     = Inl AssertionFailed"
proof -
  have u: "lim_min uint64_limits = 0" "lim_min uint64_limits \<noteq> lim_max uint64_limits"
    by (simp_all add: uint64_limits_def)
  have i: "lim_min int64_limits = - (2 ^ 63)" "lim_min int64_limits \<noteq> lim_max int64_limits"
    by (simp_all add: int64_limits_def)
  show ?thesis
    using pop_mark_new_min [OF u(2)] pop_mark_new_min [OF i(2)]
    unfolding u(1) i(1) by simp
qed

text \<open>
  Claim C2, as amended. \<^verbatim>\<open>next_set(start)\<close> scans from the first offset of the 32-bit word
  that holds \<open>start\<close>, which is \<open>32 * (start div 32)\<close>: it returns the smallest offset at or
  after that word boundary whose bit is set, and \<^verbatim>\<open>BLOCK_SIZE\<close> exactly when no bit at or after
  the boundary is set. When no bit between the boundary and \<open>start\<close> is set, as for every
  call \<^verbatim>\<open>pop_min\<close> makes, the result is not below \<open>start\<close>.
\<close>

theorem next_set_word_granular:
  assumes "wf_block b" and "start < BLOCK_SIZE"
  shows "\<exists>r. next_set b start = Some r \<and>
    (r = BLOCK_SIZE \<longleftrightarrow>
       (\<forall>off. 32 * (start div 32) \<le> off \<and> off < BLOCK_SIZE \<longrightarrow> \<not> block_get b off)) \<and>
    (r \<noteq> BLOCK_SIZE \<longrightarrow>
       32 * (start div 32) \<le> r \<and> r < BLOCK_SIZE \<and> block_get b r \<and>
       (\<forall>off. 32 * (start div 32) \<le> off \<and> off < r \<longrightarrow> \<not> block_get b off)) \<and>
    ((\<forall>off. 32 * (start div 32) \<le> off \<and> off < start \<longrightarrow> \<not> block_get b off) \<longrightarrow>
       start \<le> r)"
proof (cases "\<forall>off. 32 * (start div 32) \<le> off \<and> off < BLOCK_SIZE \<longrightarrow> \<not> block_get b off")
  case True
  then have "next_set b start = Some BLOCK_SIZE" by (rule next_set_none)
  with True assms(2) show ?thesis by simp
next
  case False
  let ?P = "\<lambda>off. 32 * (start div 32) \<le> off \<and> block_get b off"
  from False obtain off where off: "32 * (start div 32) \<le> off" "off < BLOCK_SIZE" "block_get b off"
    by blast
  define r where "r = (LEAST off. ?P off)"
  have "?P off" using off by simp
  then have Pr: "?P r" and le: "r \<le> off"
    unfolding r_def by (rule LeastI, rule Least_le)
  have least: "\<forall>off'. 32 * (start div 32) \<le> off' \<and> off' < r \<longrightarrow> \<not> block_get b off'"
    unfolding r_def using not_less_Least by blast
  have r: "r < BLOCK_SIZE" using le off(2) by simp
  have "next_set b start = Some r"
    using assms(1) r Pr least by (intro next_set_found) auto
  moreover have "start \<le> r"
    if "\<forall>off. 32 * (start div 32) \<le> off \<and> off < start \<longrightarrow> \<not> block_get b off"
    using that Pr by (meson not_le_imp_less)
  ultimately show ?thesis using False Pr r least by auto
qed

theorem next_set_word_granular_witness:
  "wf_block (block_set new_block 3 True) \<and> (5::nat) < BLOCK_SIZE \<and>
   next_set (block_set new_block 3 True) 5 = Some 3 \<and> block_get (block_set new_block 3 True) 3 \<and>
   wf_block new_block \<and> next_set new_block 5 = Some BLOCK_SIZE"
proof -
  have wf: "wf_block (block_set new_block 3 True)"
    by (simp add: wf_block_set wf_new_block)
  have five: "(5::nat) < BLOCK_SIZE" by (simp add: BLOCK_SIZE_eq)
  have get: "block_get (block_set new_block 3 True) off \<longleftrightarrow> off = 3" if "off < BLOCK_SIZE" for off
    using that by (simp add: block_get_set wf_new_block BLOCK_SIZE_eq block_get_new_block)
  from next_set_word_granular [OF wf five]
  obtain r where r: "next_set (block_set new_block 3 True) 5 = Some r"
    "r \<noteq> BLOCK_SIZE \<longrightarrow> r < BLOCK_SIZE \<and> block_get (block_set new_block 3 True) r"
    "r = BLOCK_SIZE \<longleftrightarrow>
       (\<forall>off. 32 * (5 div 32) \<le> off \<and> off < BLOCK_SIZE \<longrightarrow> \<not> block_get (block_set new_block 3 True) off)"
    by blast
  have "block_get (block_set new_block 3 True) 3" "(3::nat) < BLOCK_SIZE"
    by (simp_all add: get BLOCK_SIZE_eq)
  then have "r \<noteq> BLOCK_SIZE" using r(3) by auto
  then have "r = 3" using r(2) get by blast
  from next_set_word_granular [OF wf_new_block five]
  obtain r' where r': "next_set new_block 5 = Some r'"
    "r' \<noteq> BLOCK_SIZE \<longrightarrow> r' < BLOCK_SIZE \<and> block_get new_block r'"
    by blast
  then have "r' = BLOCK_SIZE" using block_get_new_block by blast
  show ?thesis
    using wf five r(1) \<open>r = 3\<close> get [of 3] wf_new_block r'(1) \<open>r' = BLOCK_SIZE\<close>
    by (simp add: BLOCK_SIZE_eq)
qed

text \<open>
  Claim C2 as stated fails: with only bit 3 set, \<^verbatim>\<open>next_set(5)\<close> returns 3, an offset before
  \<open>start\<close>, although no bit at or after offset 5 is set.
\<close>

theorem next_set_before_start:
  "next_set (block_set new_block 3 True) 5 = Some 3 \<and> (3::nat) < 5 \<and> 3 \<noteq> BLOCK_SIZE"
proof -
  have wf: "wf_block new_block" by (rule wf_new_block)
  have "next_set (block_set new_block 3 True) 5 = Some 3"
    by (rule next_set_found)
      (simp_all add: wf_block_set wf BLOCK_SIZE_eq block_get_set block_get_new_block)
  then show ?thesis by (simp add: BLOCK_SIZE_eq)
qed

text \<open>
  Claim C3, as amended. When \<^verbatim>\<open>pop_mark()\<close> returns the only marked identifier of a block,
  the entry of that block is still in the map right after the call, with no bit set and
  with the cursor at the offset popped; the next \<^verbatim>\<open>pop_mark()\<close>, called in that state,
  returns and leaves no entry for the block in the map.
\<close>

theorem pop_last_of_block:
  assumes reach: "reachable L t" and pop: "pop_mark L t = Inr (oid, t')"
    and marked: "fst (is_marked t oid)"
    and only: "\<forall>oid'. fst (is_marked t oid') \<and> drop_bit BLOCK_BITS oid' = drop_bit BLOCK_BITS oid
                 \<longrightarrow> oid' = oid"
  shows "(\<exists>b. map_of (pending t') (drop_bit BLOCK_BITS oid) = Some b \<and> block_empty b) \<and>
    next_start t' = Some (nat (oid AND int BLOCK_MASK)) \<and>
    (\<exists>oid2 t2. pop_mark L t' = Inr (oid2, t2) \<and>
       map_of (pending t2) (drop_bit BLOCK_BITS oid) = None)"
proof -
  let ?k = "oid div 65536"
  have inv: "tracker_inv t" using reach by (rule reachable_inv)
  note spec = pop_mark_spec [OF inv pop]
  from pop obtain p where p: "pop_min L t = Inr (oid, p)" "t' = p\<lparr>old_id := oid\<rparr>"
    by (rule pop_mark_Inr)
  have m: "pimpl_get t oid" using marked by (simp add: is_marked_def)
  have o: "\<forall>x. pimpl_get t x \<and> x div 65536 = ?k \<longrightarrow> x = oid"
    using only by (simp add: is_marked_def id_block_eq)
  from pop_min_last_of_block [OF inv p(1) m o]
  obtain b rest where pend: "pending p = (?k, b) # rest" and empty: "block_empty b"
    and cur: "next_start p = Some (nat (oid mod 65536))"
    by blast
  have pend': "pending t' = (?k, b) # rest" and cur': "next_start t' = Some (nat (oid mod 65536))"
    using pend cur p(2) by simp_all
  have inv': "tracker_inv t'" by (rule spec(1))
  have wf': "wf_map ((?k, b) # rest)" using inv' pend' by (simp add: tracker_inv_def)
  from pop_min_loop_spec [OF inv', of "lim_max L"]
  obtain m2 p2 where p2: "pop_min L t' = Inr (m2, p2)" "old_id p2 = old_id t'"
    "(\<exists>x. pimpl_get t' x) \<longrightarrow> pimpl_get t' m2"
    "(\<forall>x. \<not> pimpl_get t' x) \<longrightarrow> m2 = lim_max L"
    unfolding pop_min_def by blast
  have guard: "old_id p2 < m2 \<or> m2 = lim_max L"
  proof (cases "\<exists>x. pimpl_get t' x")
    case True
    then have "pimpl_get t' m2" using p2(3) by blast
    then have "pimpl_get t m2" "m2 \<noteq> oid" using spec(4) by blast+
    then have "oid < m2" using spec(5) [of m2] by simp
    then show ?thesis using p2(2) spec(2) by simp
  next
    case False
    then show ?thesis using p2(4) by blast
  qed
  have pop2: "pop_mark L t' = Inr (m2, p2\<lparr>old_id := m2\<rparr>)"
    using p2(1) guard by (auto simp: pop_mark_def)
  have "fst ` set (pending p2) \<subseteq> fst ` set (dropWhile (\<lambda>e. block_empty (snd e)) (pending t'))"
    using inv' p2(1) unfolding pop_min_def by (rule pop_min_loop_keys)
  also have "\<dots> \<subseteq> fst ` set rest"
    using empty set_dropWhileD by (fastforce simp: pend')
  finally have sub: "fst ` set (pending p2) \<subseteq> fst ` set rest" .
  have "\<forall>k' \<in> fst ` set rest. ?k < k'"
    using wf' by (simp add: wf_map_Cons)
  then have "?k \<notin> fst ` set rest" by blast
  with sub have "?k \<notin> fst ` set (pending p2)" by blast
  then have "map_of (pending p2) ?k = None"
    by (simp add: map_of_eq_None_iff)
  then have "\<exists>oid2 t2. pop_mark L t' = Inr (oid2, t2) \<and> map_of (pending t2) ?k = None"
    using pop2 by simp
  moreover have "\<exists>b. map_of (pending t') ?k = Some b \<and> block_empty b"
    using pend' empty by simp
  ultimately show ?thesis
    using cur' by (simp add: id_block_eq id_offset_eq)
qed

theorem pop_last_of_block_witness:
  "reachable uint64_limits (mark uint64_limits (id_tracker uint64_limits) 5) \<and>
   pop_mark uint64_limits (mark uint64_limits (id_tracker uint64_limits) 5) =
     Inr (5, \<lparr>pending = [(0, block_set (block_set new_block 5 True) 5 False)],
              old_id = 5, next_start = Some 5\<rparr>) \<and>
   fst (is_marked (mark uint64_limits (id_tracker uint64_limits) 5) 5) \<and>
   (\<exists>b. map_of [(0::int, block_set (block_set new_block 5 True) 5 False)] 0 = Some b \<and>
        block_empty b) \<and>
   (\<exists>oid2 t2. pop_mark uint64_limits
        \<lparr>pending = [(0, block_set (block_set new_block 5 True) 5 False)],
         old_id = 5, next_start = Some 5\<rparr> = Inr (oid2, t2) \<and>
      map_of (pending t2) 0 = None)"
proof -
  let ?L = uint64_limits
  let ?t = "mark ?L (id_tracker ?L) 5"
  let ?t' = "\<lparr>pending = [(0, block_set (block_set new_block 5 True) 5 False)],
              old_id = 5, next_start = Some (5::nat)\<rparr>"
  have wf0: "wf_map (pending (id_tracker ?L))" by (simp add: id_tracker_def wf_map_Nil)
  have get: "pimpl_get ?t x \<longleftrightarrow> x = 5" for x
    by (simp add: pimpl_get_mark [OF wf0] pimpl_get_new)
  have reach: "reachable ?L ?t"
    by (rule reach_mark [OF reach_new]) (simp_all add: uint64_limits_def)
  have marked: "fst (is_marked ?t 5)" by (simp add: is_marked_def get)
  have only: "\<forall>oid'. fst (is_marked ?t oid') \<and> drop_bit BLOCK_BITS oid' = drop_bit BLOCK_BITS 5
                 \<longrightarrow> oid' = 5"
    by (simp add: is_marked_def get)
  have k: "drop_bit BLOCK_BITS (5::int) = 0"
    by (simp add: id_block_eq)
  from pop_last_of_block [OF reach pop_mark_5 marked only]
  have "(\<exists>b. map_of (pending ?t') 0 = Some b \<and> block_empty b) \<and>
    (\<exists>oid2 t2. pop_mark ?L ?t' = Inr (oid2, t2) \<and> map_of (pending t2) 0 = None)"
    unfolding k by blast
  then show ?thesis
    using reach pop_mark_5 marked by simp
qed

text \<open>
  Claim C3 as stated fails: after \<^verbatim>\<open>mark(5)\<close> on a new tracker, \<^verbatim>\<open>pop_mark()\<close> returns 5,
  the only marked identifier of block 0, and the map still has its entry for block 0.
\<close>

theorem block_kept_after_last_pop:
  "pop_mark uint64_limits (mark uint64_limits (id_tracker uint64_limits) 5) =
     Inr (5, \<lparr>pending = [(0, block_set (block_set new_block 5 True) 5 False)],
              old_id = 5, next_start = Some 5\<rparr>) \<and>
   map_of (pending \<lparr>pending = [(0, block_set (block_set new_block 5 True) 5 False)],
              old_id = 5, next_start = Some (5::nat)\<rparr>) (drop_bit BLOCK_BITS 5) \<noteq> None"
  using pop_mark_5 by (simp add: id_block_eq)

text \<open>
  Claim C4 does not hold of the code. Mark 7, pop it, mark the minimum of the identifier
  type (0 for unsigned 64-bit identifiers, \<open>- 2 ^ 63\<close> for signed ones), which is smaller
  than the identifier popped before, and pop again: the assertion of \<^verbatim>\<open>pop_mark\<close> fails,
  since \<^verbatim>\<open>mark\<close> has reset the guard to that same minimum and the comparison is strict.
\<close>

theorem assertion_fails_after_remark:
  "run uint64_limits [Mark 7, PopMark, Mark 0, PopMark] (id_tracker uint64_limits)
     = Inl AssertionFailed \<and>
   run int64_limits [Mark 7, PopMark, Mark (- (2 ^ 63)), PopMark] (id_tracker int64_limits)
     = Inl AssertionFailed"
proof -
  have u: "lim_min uint64_limits = 0" "lim_min uint64_limits < 7"
    "lim_min uint64_limits \<noteq> lim_max uint64_limits"
    by (simp_all add: uint64_limits_def)
  have i: "lim_min int64_limits = - (2 ^ 63)" "lim_min int64_limits < 7"
    "lim_min int64_limits \<noteq> lim_max int64_limits"
    by (simp_all add: int64_limits_def)
  show ?thesis
    using run_remark_min [OF u(2,3)] run_remark_min [OF i(2,3)]
    unfolding u(1) i(1) by (rule conjI)
qed




text \<open>
  Claim C6. From any tracker state (any well-formed map, any cursor, any guard) and for
  every identifier, \<^verbatim>\<open>is_marked(id)\<close> right after \<^verbatim>\<open>mark(id)\<close> returns true. The identifier
  ranges over all integers, so over the representable range whatever the limits are.
\<close>

theorem mark_then_is_marked:
  "wf_map (pending t) \<Longrightarrow> fst (is_marked (mark L t oid) oid)"
  by (simp add: is_marked_def pimpl_get_mark)

theorem mark_then_is_marked_witness:
  "wf_map (pending (mark uint64_limits (id_tracker uint64_limits) 70000)) \<and>
   fst (is_marked (mark uint64_limits (mark uint64_limits (id_tracker uint64_limits) 70000) 0) 0) \<and>
   fst (is_marked (mark uint64_limits (mark uint64_limits (id_tracker uint64_limits) 70000)
          (lim_max uint64_limits)) (lim_max uint64_limits))"
proof -
  have wf: "wf_map (pending (mark uint64_limits (id_tracker uint64_limits) 70000))"
    by (simp add: mark_new wf_map_Cons wf_map_Nil wf_block_set wf_new_block)
  show ?thesis
    using wf mark_then_is_marked [OF wf, of uint64_limits 0]
      mark_then_is_marked [OF wf, of uint64_limits "lim_max uint64_limits"]
    by simp
qed

text \<open>
  Claim C7. \<^verbatim>\<open>mark(id)\<close> clears the cursor, resets the guard to the minimum identifier,
  keeps the map well formed, leaves every other block of the map as it was, and makes the
  block of \<open>id\<close> present (a new block when there was none) with the bit of \<open>id\<close> set and
  every other bit as before.
\<close>

theorem mark_effects:
  assumes "wf_map (pending t)"
  shows "next_start (mark L t oid) = None \<and> old_id (mark L t oid) = lim_min L \<and>
    wf_map (pending (mark L t oid)) \<and>
    (\<forall>k. k \<noteq> drop_bit BLOCK_BITS oid \<longrightarrow>
       map_of (pending (mark L t oid)) k = map_of (pending t) k) \<and>
    (\<exists>b'. map_of (pending (mark L t oid)) (drop_bit BLOCK_BITS oid) = Some b' \<and>
       length (bits b') = length (bits (block_of (pending t) (drop_bit BLOCK_BITS oid))) \<and>
       (\<forall>off. block_get b' off \<longleftrightarrow>
          off = nat (oid AND int BLOCK_MASK) \<or>
          block_get (block_of (pending t) (drop_bit BLOCK_BITS oid)) off))"
proof -
  let ?k = "drop_bit BLOCK_BITS oid" and ?off = "nat (oid AND int BLOCK_MASK)"
  let ?b = "block_of (pending t) ?k"
  have pend: "pending (mark L t oid) = map_subscript (\<lambda>b. block_set b ?off True) ?k (pending t)"
    by (simp add: mark_def pimpl_set_def Let_def)
  have m: "map_of (pending (mark L t oid)) = (map_of (pending t))(?k \<mapsto> block_set ?b ?off True)"
    unfolding pend block_of_def by (rule map_of_map_subscript [OF assms])
  have wfb: "wf_block ?b"
    using assms by (auto simp: block_of_def wf_new_block dest: wf_map_of split: option.splits)
  have len: "length (bits (block_set ?b ?off True)) = length (bits ?b)"
    by (simp add: block_set_def Let_def)
  have bits: "\<forall>off. block_get (block_set ?b ?off True) off \<longleftrightarrow> off = ?off \<or> block_get ?b off"
    by (simp add: block_get_set [OF wfb id_offset_less])
  have "next_start (mark L t oid) = None" "old_id (mark L t oid) = lim_min L"
    by (simp_all add: mark_def next_start_pimpl_set)
  moreover have "wf_map (pending (mark L t oid))"
    using assms by (simp add: mark_def wf_map_pimpl_set)
  moreover have "\<forall>k. k \<noteq> ?k \<longrightarrow> map_of (pending (mark L t oid)) k = map_of (pending t) k"
    by (simp add: m)
  moreover have "map_of (pending (mark L t oid)) ?k = Some (block_set ?b ?off True)"
    by (simp add: m)
  ultimately show ?thesis using len bits by blast
qed

theorem mark_effects_witness:
  "wf_map (pending (id_tracker uint64_limits)) \<and>
   next_start (mark uint64_limits (id_tracker uint64_limits) 70000) = None \<and>
   old_id (mark uint64_limits (id_tracker uint64_limits) 70000) = 0 \<and>
   map_of (pending (mark uint64_limits (id_tracker uint64_limits) 70000)) 0 = None \<and>
   (\<exists>b'. map_of (pending (mark uint64_limits (id_tracker uint64_limits) 70000)) 1 = Some b' \<and>
      block_get b' 4464 \<and> \<not> block_get b' 4465)"
proof -
  have wf: "wf_map (pending (id_tracker uint64_limits))"
    by (simp add: id_tracker_def wf_map_Nil)
  have k: "drop_bit BLOCK_BITS (70000::int) = 1" and off: "nat (70000 AND int BLOCK_MASK) = 4464"
    by (simp_all add: id_block_eq id_offset_eq)
  have "\<not> block_get (block_of (pending (id_tracker uint64_limits)) 1) 4465"
    by (simp add: block_of_def id_tracker_def block_get_new_block BLOCK_SIZE_eq)
  then show ?thesis
    using wf mark_effects [OF wf, of uint64_limits 70000]
    by (auto simp: k off id_tracker_def uint64_limits_def)
qed

text \<open>
  Claim C8. \<^verbatim>\<open>is_marked(id)\<close> returns the state it was given, map, cursor and guard; when the
  map has no block for \<open>id\<close> the answer is false (and no entry is created, the state being
  the same).
\<close>

theorem is_marked_no_effect:
  "snd (is_marked t oid) = t \<and>
   (map_of (pending t) (drop_bit BLOCK_BITS oid) = None \<longrightarrow> \<not> fst (is_marked t oid))"
  by (simp add: is_marked_def pimpl_get_def)

theorem is_marked_no_effect_witness:
  "snd (is_marked (id_tracker uint64_limits) 5) = id_tracker uint64_limits \<and>
   map_of (pending (id_tracker uint64_limits)) (drop_bit BLOCK_BITS 5) = None \<and>
   \<not> fst (is_marked (id_tracker uint64_limits) 5)"
  using is_marked_no_effect [of "id_tracker uint64_limits" 5]
  by (simp add: id_tracker_def)

text \<open>
  Claim C9. In every reachable state, a cursor that holds a value comes with a map that is
  not empty; and \<^verbatim>\<open>pop_min\<close> returns a result there: no pass through its loop reads
  \<^verbatim>\<open>begin()\<close> of an empty map (nor fails to return).
\<close>

theorem cursor_implies_block:
  assumes "reachable L t"
  shows "(next_start t \<noteq> None \<longrightarrow> pending t \<noteq> []) \<and> (\<exists>oid t'. pop_min L t = Inr (oid, t'))"
proof -
  have inv: "tracker_inv t" using assms by (rule reachable_inv)
  then have "next_start t \<noteq> None \<longrightarrow> pending t \<noteq> []"
    by (auto simp: tracker_inv_def cursor_ok_def)
  moreover have "\<exists>oid t'. pop_min L t = Inr (oid, t')"
    using pop_min_loop_spec [OF inv, of "lim_max L"] unfolding pop_min_def by blast
  ultimately show ?thesis by simp
qed

theorem cursor_implies_block_witness:
  "reachable uint64_limits
     \<lparr>pending = [(0, block_set (block_set new_block 5 True) 5 False)],
      old_id = 5, next_start = Some 5\<rparr> \<and>
   next_start \<lparr>pending = [(0, block_set (block_set new_block 5 True) 5 False)],
      old_id = 5, next_start = Some (5::nat)\<rparr> \<noteq> None \<and>
   pending \<lparr>pending = [(0, block_set (block_set new_block 5 True) 5 False)],
      old_id = 5, next_start = Some 5\<rparr> \<noteq> [] \<and>
   (\<exists>oid t'. pop_min uint64_limits
      \<lparr>pending = [(0, block_set (block_set new_block 5 True) 5 False)],
       old_id = 5, next_start = Some 5\<rparr> = Inr (oid, t'))"
proof -
  have "reachable uint64_limits (mark uint64_limits (id_tracker uint64_limits) 5)"
    by (rule reach_mark [OF reach_new]) (simp_all add: uint64_limits_def)
  then have r: "reachable uint64_limits
     \<lparr>pending = [(0, block_set (block_set new_block 5 True) 5 False)],
      old_id = 5, next_start = Some 5\<rparr>"
    using pop_mark_5 by (rule reach_pop_mark)
  show ?thesis
    using r cursor_implies_block [OF r] by simp
qed

text \<open>
  Claim C10. On every reachable state \<^verbatim>\<open>pop_min\<close> returns, and it does so within as many
  evaluations of the loop condition as the map has blocks, plus one; every pass through
  the loop body either returns an identifier or removes exactly one block from the map.
\<close>

theorem pop_min_terminates:
  assumes "reachable L t"
  shows "pop_min_fuel (length (pending t) + 1) (lim_max L) t = Some (pop_min L t) \<and>
    (\<exists>oid t'. pop_min L t = Inr (oid, t')) \<and>
    (\<forall>p. pop_min_visits t p \<and> (next_start p \<noteq> None \<or> pending p \<noteq> []) \<longrightarrow>
       (\<exists>oid p'. pop_min_body p = Break oid p') \<or>
       (\<exists>p'. pop_min_body p = Continue p' \<and> length (pending p') + 1 = length (pending p)))"
proof -
  have inv: "tracker_inv t" using assms by (rule reachable_inv)
  have "length (pending t) < length (pending t) + 1" by simp
  then have "pop_min_fuel (length (pending t) + 1) (lim_max L) t = Some (pop_min L t)"
    unfolding pop_min_def by (rule pop_min_fuel_enough)
  moreover have "\<exists>oid t'. pop_min L t = Inr (oid, t')"
    using pop_min_loop_spec [OF inv, of "lim_max L"] unfolding pop_min_def by blast
  moreover have "(\<exists>oid p'. pop_min_body p = Break oid p') \<or>
       (\<exists>p'. pop_min_body p = Continue p' \<and> length (pending p') + 1 = length (pending p))"
    if v: "pop_min_visits t p" and c: "next_start p \<noteq> None \<or> pending p \<noteq> []" for p
  proof -
    have invp: "tracker_inv p" using v inv by (rule pop_min_visits_inv)
    then have ne: "pending p \<noteq> []" using c by (auto simp: tracker_inv_def cursor_ok_def)
    from pop_min_body_cases [OF invp ne] ne show ?thesis by auto
  qed
  ultimately show ?thesis by blast
qed

theorem pop_min_terminates_witness:
  "reachable uint64_limits
     \<lparr>pending = [(0, block_set (block_set new_block 5 True) 5 False)],
      old_id = 5, next_start = Some 5\<rparr> \<and>
   pop_min_fuel 2 (lim_max uint64_limits)
     \<lparr>pending = [(0, block_set (block_set new_block 5 True) 5 False)],
      old_id = 5, next_start = Some 5\<rparr> =
   Some (pop_min uint64_limits
     \<lparr>pending = [(0, block_set (block_set new_block 5 True) 5 False)],
      old_id = 5, next_start = Some 5\<rparr>) \<and>
   pop_min_body
     \<lparr>pending = [(0, block_set (block_set new_block 5 True) 5 False)],
      old_id = 5, next_start = Some 5\<rparr> =
   Continue \<lparr>pending = [], old_id = 5, next_start = None\<rparr>"
proof -
  let ?s = "\<lparr>pending = [(0, block_set (block_set new_block 5 True) 5 False)],
      old_id = 5, next_start = Some (5::nat)\<rparr>"
  have "reachable uint64_limits (mark uint64_limits (id_tracker uint64_limits) 5)"
    by (rule reach_mark [OF reach_new]) (simp_all add: uint64_limits_def)
  then have r: "reachable uint64_limits ?s"
    using pop_mark_5 by (rule reach_pop_mark)
  have "block_empty (block_set (block_set new_block 5 True) 5 False)"
    by (simp add: block_empty_def block_get_set wf_block_set wf_new_block BLOCK_SIZE_eq
        block_get_new_block)
  then have "pop_min_body ?s = Continue \<lparr>pending = [], old_id = 5, next_start = None\<rparr>"
    by (simp add: pop_min_body_empty [where k = 0 and rest = "[]"])
  moreover have "pop_min_fuel (length (pending ?s) + 1) (lim_max uint64_limits) ?s =
      Some (pop_min uint64_limits ?s)"
    using pop_min_terminates [OF r] by (rule conjunct1)
  moreover have "length (pending ?s) + 1 = 2" by simp
  ultimately show ?thesis
    using r by (simp only: simp_thms)
qed

end
